theory Spec2Isabelle
  imports Complex_Main "HOL-Library.Word"
begin

unbundle bit_operations_syntax

section \<open>Data model of the sketches\<close>

text \<open>
  The sketches keep two global arrays, \<^verbatim>\<open>float frame[768]\<close> and
  \<^verbatim>\<open>uint8_t rawData[1540]\<close>, and (in the WiFi-serving variants) the timestamp
  \<^verbatim>\<open>unsigned long lastFetch\<close>. Arrays are lists whose length is carried as a
  hypothesis, \<^verbatim>\<open>unsigned long\<close> is a 32-bit word (ESP8266 and ESP32), and a
  \<^verbatim>\<open>float\<close> is the real number it stands for, which is always a binary32 number:
  arithmetic rounds as the hardware does.
\<close>

type_synonym byte = "8 word"
type_synonym ulong = "32 word"

subsection \<open>Binary floating point\<close>

text \<open>
  A finite binary floating-point number is an integer multiple \<open>m * 2^e\<close> of a power of
  two. Division and conversion round to nearest, ties to even, to the precision of the
  format: 53 significant bits for \<^verbatim>\<open>double\<close>, 24 for \<^verbatim>\<open>float\<close>. The exponent
  range is left unbounded: the quotients of a 16-bit integer by 100 are 0 or lie
  between \<open>2^-7\<close> and \<open>2^9\<close> in magnitude, far from overflow and from the subnormal
  numbers of both formats.
\<close>

type_synonym binfloat = "int \<times> int"

definition fval :: "binfloat \<Rightarrow> real" where
  "fval f = real_of_int (fst f) * 2 powi snd f"

text \<open>The integer nearest to \<open>n / d\<close> for \<open>d > 0\<close>, the even one of two equally near.\<close>

definition rne_div :: "int \<Rightarrow> int \<Rightarrow> int" where
  "rne_div n d =
     (let q = n div d; r = n mod d
      in if 2 * r < d then q else if d < 2 * r then q + 1 else if even q then q else q + 1)"

text \<open>The binary exponent of \<open>n / d\<close> for positive \<open>n\<close> and \<open>d\<close>: the \<open>e\<close> with
  \<open>2^e \<le> n / d < 2^(e+1)\<close>, found by doubling the smaller of the two.\<close>

function log2_up :: "int \<Rightarrow> int \<Rightarrow> int" where
  "log2_up n d = (if 0 < d \<and> 2 * d \<le> n then log2_up n (2 * d) + 1 else 0)"
  by pat_completeness auto
termination
  by (relation "measure (\<lambda>(n, d). nat (n - d))") auto

function log2_down :: "int \<Rightarrow> int \<Rightarrow> int" where
  "log2_down n d = (if 0 < n \<and> n < d then log2_down (2 * n) d - 1 else 0)"
  by pat_completeness auto
termination
  by (relation "measure (\<lambda>(n, d). nat (d - n))") auto

declare log2_up.simps [simp del] log2_down.simps [simp del]

definition ilog2 :: "int \<Rightarrow> int \<Rightarrow> int" where
  "ilog2 n d = (if d \<le> n then log2_up n d else log2_down n d)"

text \<open>\<open>n / d\<close> rounded to \<open>p\<close> significant bits.\<close>

definition round_to :: "nat \<Rightarrow> int \<Rightarrow> int \<Rightarrow> binfloat" where
  "round_to p n d =
     (if n = 0 then (0, 0)
      else let e = ilog2 \<bar>n\<bar> d - (int p - 1)
           in (rne_div (n * 2 ^ nat (- e)) (d * 2 ^ nat e), e))"

text \<open>The \<^verbatim>\<open>double\<close> quotient of two integers that are themselves doubles, and the
  conversion of a \<^verbatim>\<open>double\<close> to \<^verbatim>\<open>float\<close>.\<close>

definition double_div :: "int \<Rightarrow> int \<Rightarrow> binfloat" where
  "double_div n d = round_to 53 n d"

definition to_float :: "binfloat \<Rightarrow> binfloat" where
  "to_float f = round_to 24 (fst f * 2 ^ nat (snd f)) (2 ^ nat (- snd f))"

text \<open>
  \<^verbatim>\<open>float t = raw / 100.0;\<close> for an integer \<^verbatim>\<open>raw\<close>: the integer is converted to
  \<^verbatim>\<open>double\<close> without loss, divided by the \<^verbatim>\<open>double\<close> 100.0, and the quotient is
  converted to \<^verbatim>\<open>float\<close>.
\<close>

definition centi_float :: "int \<Rightarrow> real" where
  "centi_float r = fval (to_float (double_div r 100))"

subsection \<open>Decoding one sample\<close>

text \<open>
  \<^verbatim>\<open>int16_t raw = (rawData[i * 2 + 1] << 8) | rawData[i * 2];\<close>
  Both bytes are promoted to \<^verbatim>\<open>int\<close> (32 bits), shifted and or-ed, and the result is
  narrowed to 16 bits and read as a signed value.
\<close>

definition int16_of :: "byte \<Rightarrow> byte \<Rightarrow> 16 word" where
  "int16_of hi lo = ucast (push_bit 8 (ucast hi :: 32 word) OR (ucast lo :: 32 word))"

definition raw_at :: "byte list \<Rightarrow> nat \<Rightarrow> 16 word" where
  "raw_at rawData i = int16_of (rawData ! (i * 2 + 1)) (rawData ! (i * 2))"

text \<open>\<^verbatim>\<open>float t = raw / 100.0;\<close>\<close>

definition celsius :: "16 word \<Rightarrow> real" where
  "celsius raw = centi_float (sint raw)"

text \<open>
  The body of the pixel loop of \<^verbatim>\<open>decodeFrame\<close>:
  \<^verbatim>\<open>if (t > -40.0 && t < 300.0) { frame[i] = t; }\<close>
\<close>

definition decodePixel :: "byte list \<Rightarrow> nat \<Rightarrow> real list \<Rightarrow> real list" where
  "decodePixel rawData i frame =
     (let raw = raw_at rawData i;
          t = celsius raw
      in if t > - 40 \<and> t < 300 then frame[i := t] else frame)"

text \<open>\<^verbatim>\<open>for (int i = 0; i < 768; i++) { ... }\<close>, entered at index \<open>i\<close>.\<close>

function decodeLoop :: "nat \<Rightarrow> byte list \<Rightarrow> real list \<Rightarrow> real list" where
  "decodeLoop i rawData frame =
     (if i < 768 then decodeLoop (Suc i) rawData (decodePixel rawData i frame) else frame)"
  by pat_completeness auto
termination
  by (relation "measure (\<lambda>(i, rawData, frame). 768 - i)") auto

declare decodeLoop.simps [simp del]

definition decodeFrame :: "byte list \<Rightarrow> real list \<Rightarrow> real list" where
  "decodeFrame rawData frame = decodeLoop 0 rawData frame"

text \<open>
  The pixel loop of \<^verbatim>\<open>decodeAndShow\<close> (standalone sketch) is the same loop with two
  running extremes:
  \<^verbatim>\<open>if (t > -40.0 && t < 300.0) { frame[i] = t; if (t < minT) minT = t; if (t > maxT) maxT = t; }\<close>
\<close>

definition showPixel :: "byte list \<Rightarrow> nat \<Rightarrow> real list \<times> real \<times> real \<Rightarrow> real list \<times> real \<times> real" where
  "showPixel rawData i acc =
     (let (frame, minT, maxT) = acc;
          raw = raw_at rawData i;
          t = celsius raw
      in if t > - 40 \<and> t < 300 then
           (let minT1 = (if t < minT then t else minT);
                maxT1 = (if t > maxT then t else maxT)
            in (frame[i := t], minT1, maxT1))
         else (frame, minT, maxT))"

function showLoop :: "nat \<Rightarrow> byte list \<Rightarrow> real list \<times> real \<times> real \<Rightarrow> real list \<times> real \<times> real" where
  "showLoop i rawData acc =
     (if i < 768 then showLoop (Suc i) rawData (showPixel rawData i acc) else acc)"
  by pat_completeness auto
termination
  by (relation "measure (\<lambda>(i, rawData, acc). 768 - i)") auto

declare showLoop.simps [simp del]

text \<open>
  The value the wire format encodes, in the words of the protocol: the two bytes are the
  little-endian two's-complement image of a 16-bit integer.
\<close>

definition le_int16 :: "byte \<Rightarrow> byte \<Rightarrow> int" where
  "le_int16 lo hi =
     (let u = 256 * uint hi + uint lo in if u < 32768 then u else u - 65536)"

subsection \<open>The sensor port\<close>

text \<open>
  The sensor hangs on a hardware UART (\<^verbatim>\<open>Serial2\<close> on the ESP32, the swapped
  \<^verbatim>\<open>Serial\<close> on the ESP8266). The port is its receive buffer together with the
  record of what the sketch did on it: every byte taken out of the buffer and every
  block written to the sensor, oldest first.
\<close>

datatype uart_event = Rd byte | Wr "byte list"

record uart =
  rxbuf :: "byte list"
  wire :: "uart_event list"

text \<open>The environment: bytes sent by the sensor land at the end of the buffer.\<close>

definition receive :: "byte list \<Rightarrow> uart \<Rightarrow> uart" where
  "receive arrived u = u\<lparr>rxbuf := rxbuf u @ arrived\<rparr>"

definition available :: "uart \<Rightarrow> nat" where
  "available u = length (rxbuf u)"

text \<open>\<^verbatim>\<open>read()\<close> returns the oldest byte as an \<^verbatim>\<open>int\<close>, or -1 on an empty buffer.\<close>

definition serial_read :: "uart \<Rightarrow> int \<times> uart" where
  "serial_read u =
     (case rxbuf u of
        [] \<Rightarrow> (- 1, u)
      | b # bs \<Rightarrow> (uint b, u\<lparr>rxbuf := bs, wire := wire u @ [Rd b]\<rparr>))"

definition serial_write :: "byte list \<Rightarrow> uart \<Rightarrow> uart" where
  "serial_write bs u = u\<lparr>wire := wire u @ [Wr bs]\<rparr>"

text \<open>
  \<^verbatim>\<open>readBytes(buffer, length)\<close> of the Arduino core copies bytes into the buffer one
  by one until \<^verbatim>\<open>length\<close> bytes are stored or a byte fails to arrive within the
  stream timeout, and returns the number stored. The bytes that reach the port before
  the read stalls are added to the receive buffer by \<open>receive\<close> beforehand.
\<close>

definition readBytes :: "uart \<Rightarrow> byte list \<Rightarrow> nat \<Rightarrow> nat \<times> byte list \<times> uart" where
  "readBytes u buffer len =
     (let count = min len (length (rxbuf u));
          got = take count (rxbuf u)
      in (count, got @ drop count buffer,
          u\<lparr>rxbuf := drop count (rxbuf u), wire := wire u @ map Rd got\<rparr>))"

text \<open>\<^verbatim>\<open>while(Serial2.available() > 0) Serial2.read();\<close>\<close>

function drain :: "uart \<Rightarrow> uart" where
  "drain u = (if available u > 0 then drain (snd (serial_read u)) else u)"
  by pat_completeness auto
termination
  by (relation "measure (\<lambda>u. length (rxbuf u))")
    (auto simp: available_def serial_read_def split: list.splits)

declare drain.simps [simp del]

text \<open>\<^verbatim>\<open>byte askData[] = {0xA5, 0x35, 0x01, 0xDB};\<close>\<close>

definition askData :: "byte list" where
  "askData = [0xA5, 0x35, 0x01, 0xDB]"

subsection \<open>Searching the header\<close>

text \<open>
  \<^verbatim>\<open>Serial2.read() == 0x5A && Serial2.read() == 0x5A &&
  Serial2.read() == 0x02 && Serial2.read() == 0x06\<close>
  with the short-circuit evaluation of \<^verbatim>\<open>&&\<close>: a comparison that fails ends the
  chain, and the byte it has read is gone from the buffer.
\<close>

definition tryHeader :: "uart \<Rightarrow> bool \<times> uart" where
  "tryHeader u =
     (let (c0, u0) = serial_read u in
      if c0 \<noteq> 0x5A then (False, u0) else
      let (c1, u1) = serial_read u0 in
      if c1 \<noteq> 0x5A then (False, u1) else
      let (c2, u2) = serial_read u1 in
      if c2 \<noteq> 0x02 then (False, u2) else
      let (c3, u3) = serial_read u2 in
      (c3 = 0x06, u3))"

text \<open>
  \<^verbatim>\<open>while (millis() - startWait < deadline) { if (Serial2.available() >= 4) { ... } }\<close>
  One element of \<open>polls\<close> is what one evaluation of the loop condition observes: the
  bytes that reached the port since the previous round and the value \<^verbatim>\<open>millis()\<close>
  returns. The result is \<open>None\<close> when the observations end while the loop is still
  running; otherwise it holds \<^verbatim>\<open>headerFound\<close>, the port, and the observations
  not yet consumed.
\<close>

type_synonym poll = "ulong \<times> byte list"

fun waitHeader :: "ulong \<Rightarrow> ulong \<Rightarrow> poll list \<Rightarrow> uart \<Rightarrow> (bool \<times> uart \<times> poll list) option" where
  "waitHeader deadline startWait [] u = None"
| "waitHeader deadline startWait ((now, arrived) # rest) u =
     (let u1 = receive arrived u in
      if now - startWait < deadline then
        (if available u1 \<ge> 4 then
           (case tryHeader u1 of
              (True, u2) \<Rightarrow> Some (True, u2, rest)
            | (False, u2) \<Rightarrow> waitHeader deadline startWait rest u2)
         else waitHeader deadline startWait rest u1)
      else Some (False, u1, rest))"

subsection \<open>The WiFi-serving sketches\<close>

text \<open>
  Every sketch has the two global arrays, the sensor port and a debug console (the
  lines printed, oldest first; \<open>Ambiante ta minT maxT\<close> and \<open>TrameIncomplete n\<close>
  carry the numbers that \<^verbatim>\<open>printf\<close> formats). The WiFi-serving sketches add the
  timestamp \<^verbatim>\<open>lastFetch\<close> and the WebSocket server: the payloads handed to
  \<^verbatim>\<open>webSocket.broadcastBIN((uint8_t*)frame, sizeof(frame))\<close>, oldest first, the
  subscribers connected at the moment (the server object keeps them; they come and go
  with the environment), and the messages delivered, each with the subscriber it went
  to.
\<close>

datatype debug_line =
    Ambiante real real real
  | TrameIncomplete nat
  | PasDeReponse
  | Attente

record board =
  frame :: "real list"
  rawData :: "byte list"
  serial :: uart
  console :: "debug_line list"

record sketch = board +
  lastFetch :: ulong
  webSocket :: "byte list list"
  clients :: "nat list"
  delivered :: "(nat \<times> byte list) list"

text \<open>The branch a poll cycle ends in; \<open>ShortRead n\<close> is the branch that prints
  \<^verbatim>\<open>Erreur : Trame incomplete (n/1540)\<close>.\<close>

datatype PollOutcome = Success | HeaderTimeout | ShortRead nat

text \<open>What the environment contributes to one cycle.\<close>

record cycle_env =
  startWait :: ulong
  polls :: "poll list"
  burst :: "byte list"

text \<open>
  Modelled from the spec: the payload is the grid as "little-endian IEEE-754 32-bit
  floats, total 3072 bytes". The sketch passes the memory of the \<^verbatim>\<open>frame\<close> array,
  whose layout is the target's and not in the source; \<open>f32_bits\<close> is the binary32
  interchange encoding of a real number that is a binary32 number (sign, exponent
  biased by 127, 23 fraction bits), and the bytes are stored lowest first.
\<close>

definition f32_exponent :: "real \<Rightarrow> int option" where
  "f32_exponent a = find (\<lambda>e. 2 powi e \<le> a \<and> a < 2 powi (e + 1)) [- 126..127]"

definition f32_bits :: "real \<Rightarrow> 32 word" where
  "f32_bits x =
     (let sign = (if x < 0 then 2 ^ 31 else 0);
          a = \<bar>x\<bar>
      in case f32_exponent a of
           Some e \<Rightarrow>
             sign + push_bit 23 (word_of_int (e + 127)) +
               word_of_int (\<lfloor>a / 2 powi (e - 23)\<rfloor> - 2 ^ 23)
         | None \<Rightarrow>
             if a < 1 then sign + word_of_int \<lfloor>a / 2 powi (- 149)\<rfloor>
             else sign + 0x7F800000)"

definition le_bytes :: "32 word \<Rightarrow> byte list" where
  "le_bytes w = [ucast w, ucast (drop_bit 8 w), ucast (drop_bit 16 w), ucast (drop_bit 24 w)]"

definition ieee754_le :: "real \<Rightarrow> byte list" where
  "ieee754_le x = le_bytes (f32_bits x)"

definition float_image :: "real list \<Rightarrow> byte list" where
  "float_image cells = concat (map ieee754_le cells)"

text \<open>
  Modelled from the spec: the transport "delivers the byte payload to every currently
  connected subscriber"; with none connected nothing is delivered. The WebSocket
  library that does this is not in the source.
\<close>

definition broadcastBIN :: "nat list \<Rightarrow> byte list \<Rightarrow> (nat \<times> byte list) list" where
  "broadcastBIN subscribers payload = map (\<lambda>c. (c, payload)) subscribers"

text \<open>The block run on a complete frame: \<^verbatim>\<open>decodeFrame(); webSocket.broadcastBIN(...)\<close>.\<close>

definition publishFrame :: "sketch \<Rightarrow> sketch" where
  "publishFrame s =
     (let s1 = s\<lparr>frame := decodeFrame (rawData s) (frame s)\<rparr>;
          payload = float_image (frame s1)
      in s1\<lparr>webSocket := webSocket s1 @ [payload],
            delivered := delivered s1 @ broadcastBIN (clients s1) payload\<rparr>)"

definition requestSensorData :: "cycle_env \<Rightarrow> sketch \<Rightarrow> (PollOutcome \<times> sketch) option" where
  "requestSensorData env s =
     (let u0 = drain (serial s);
          u1 = serial_write askData u0
      in case waitHeader 500 (startWait env) (polls env) u1 of
           None \<Rightarrow> None
         | Some (headerFound, u2, _) \<Rightarrow>
             if headerFound then
               (let (received, buf, u3) = readBytes (receive (burst env) u2) (rawData s) 1540;
                    s1 = s\<lparr>rawData := buf, serial := u3\<rparr>
                in if received = 1540 then Some (Success, publishFrame s1)
                   else Some (ShortRead received,
                              s1\<lparr>console := console s1 @ [TrameIncomplete received]\<rparr>))
             else Some (HeaderTimeout, s\<lparr>serial := u2\<rparr>))"

text \<open>
  \<^verbatim>\<open>if (millis() - lastFetch > 1000) { lastFetch = millis(); requestSensorData(); }\<close>
  The two calls of \<^verbatim>\<open>millis()\<close> are two readings of the clock. The first component
  of the result is \<open>None\<close> when no cycle was run. The calls that serve the HTTP and
  WebSocket clients at the top of \<^verbatim>\<open>loop\<close> touch none of the state kept here.
\<close>

definition loop :: "ulong \<Rightarrow> ulong \<Rightarrow> cycle_env \<Rightarrow> sketch \<Rightarrow> (PollOutcome option \<times> sketch) option" where
  "loop now1 now2 env s =
     (if now1 - lastFetch s > 1000 then
        (case requestSensorData env (s\<lparr>lastFetch := now2\<rparr>) of
           None \<Rightarrow> None
         | Some (out, s') \<Rightarrow> Some (Some out, s'))
      else Some (None, s))"

text \<open>\<^verbatim>\<open>for(int i=0; i<768; i++) frame[i] = 0.0;\<close> at the end of \<^verbatim>\<open>setup\<close>.\<close>

function clearLoop :: "nat \<Rightarrow> real list \<Rightarrow> real list" where
  "clearLoop i grid = (if i < 768 then clearLoop (Suc i) (grid[i := 0]) else grid)"
  by pat_completeness auto
termination
  by (relation "measure (\<lambda>(i, grid). 768 - i)") auto

declare clearLoop.simps [simp del]

text \<open>
  The state after \<^verbatim>\<open>setup\<close>: the globals are zero-initialised, the query command
  has been written once, the grid has been cleared, and no subscriber has connected.
\<close>

definition after_setup :: sketch where
  "after_setup =
     \<lparr>frame = clearLoop 0 (replicate 768 0),
      rawData = replicate 1540 0,
      serial = serial_write [0xA5, 0x35, 0x01, 0xDB] \<lparr>rxbuf = [], wire = []\<rparr>,
      console = [],
      lastFetch = 0,
      webSocket = [],
      clients = [],
      delivered = []\<rparr>"

subsection \<open>The standalone sketch\<close>

text \<open>
  \<^verbatim>\<open>decodeAndShow\<close> decodes the pixels, then the ambient temperature
  \<^verbatim>\<open>int16_t taRaw = (rawData[1537] << 8) | rawData[1536]; float ta = taRaw / 100.0;\<close>
  and prints it with the extremes. The character map it prints afterwards goes to the
  debug console only and is left out.
\<close>

definition decodeAndShow :: "board \<Rightarrow> board" where
  "decodeAndShow s =
     (let (fr, minT, maxT) = showLoop 0 (rawData s) (frame s, 100, - 100);
          taRaw = int16_of (rawData s ! 1537) (rawData s ! 1536);
          ta = celsius taRaw
      in s\<lparr>frame := fr, console := console s @ [Ambiante ta minT maxT]\<rparr>)"

text \<open>
  \<^verbatim>\<open>delay(ms)\<close> of the Arduino core returns once the clock has advanced by
  \<^verbatim>\<open>ms\<close>: from the clock reading at the call it gives the reading at the return.
\<close>

definition delay :: "ulong \<Rightarrow> ulong \<Rightarrow> ulong" where
  "delay ms now = now + ms"

text \<open>
  \<^verbatim>\<open>loop\<close> of the standalone sketch: one cycle on every pass, with a header
  deadline of 1000 ms, followed by \<^verbatim>\<open>delay(5000)\<close>. \<open>finish\<close> is the clock reading
  when the pause begins; the third component of the result is the reading when the
  pass ends and the next one begins.
\<close>

definition loop_standalone :: "cycle_env \<Rightarrow> ulong \<Rightarrow> board \<Rightarrow> (PollOutcome \<times> board \<times> ulong) option" where
  "loop_standalone env finish s =
     (let u0 = drain (serial s);
          u1 = serial_write askData u0
      in case waitHeader 1000 (startWait env) (polls env) u1 of
           None \<Rightarrow> None
         | Some (headerFound, u2, _) \<Rightarrow>
             (let (out, s2) =
                (if headerFound then
                   (let (received, buf, u3) = readBytes (receive (burst env) u2) (rawData s) 1540;
                        s1 = s\<lparr>rawData := buf, serial := u3\<rparr>
                    in if received = 1540 then (Success, decodeAndShow s1)
                       else (ShortRead received,
                             s1\<lparr>console := console s1 @ [TrameIncomplete received]\<rparr>))
                 else (HeaderTimeout, s\<lparr>serial := u2, console := console s @ [PasDeReponse]\<rparr>))
              in Some (out, s2\<lparr>console := console s2 @ [Attente]\<rparr>, delay 5000 finish)))"

subsection \<open>Auxiliary notions\<close>

text \<open>What one pass of the pixel loop leaves in the cell it looks at.\<close>

definition filtered :: "byte list \<Rightarrow> nat \<Rightarrow> real \<Rightarrow> real" where
  "filtered raw i old =
     (let t = celsius (raw_at raw i) in if - 40 < t \<and> t < 300 then t else old)"

text \<open>
  The sample of pixel \<open>i\<close> that a raw frame carries, in hundredths of a degree, and the
  samples the pixel filter lets through: those strictly between -40.00 and 300.00 degrees.
\<close>

definition sample :: "byte list \<Rightarrow> nat \<Rightarrow> int" where
  "sample raw i = le_int16 (raw ! (2 * i)) (raw ! (2 * i + 1))"

definition plausible :: "int \<Rightarrow> bool" where
  "plausible r = (- 4000 < r \<and> r < 30000)"

text \<open>The grid after a run of complete frames, decoded one after the other.\<close>

fun decodes :: "byte list list \<Rightarrow> real list \<Rightarrow> real list" where
  "decodes [] fr = fr"
| "decodes (raw # raws) fr = decodes raws (decodeFrame raw fr)"

text \<open>
  The most recent plausible sample of a history, as a temperature, or the old value of
  the cell when the history has none.
\<close>

definition latest :: "int list \<Rightarrow> real \<Rightarrow> real" where
  "latest rs old =
     (let ps = filter plausible rs in if ps = [] then old else centi_float (last ps))"

text \<open>
  The index of the first observation of the header loop at which the clock has reached
  the deadline (the number of observations before it), the bytes that arrive during
  the observations, in order, and the header of a frame.
\<close>

definition expiry :: "ulong \<Rightarrow> ulong \<Rightarrow> poll list \<Rightarrow> nat" where
  "expiry deadline start ps = length (takeWhile (\<lambda>p. fst p - start < deadline) ps)"

definition arrivals :: "poll list \<Rightarrow> byte list" where
  "arrivals ps = concat (map snd ps)"

definition header :: "byte list" where
  "header = [0x5A, 0x5A, 0x02, 0x06]"

section \<open>Properties\<close>

lemma length_decodePixel [simp]: "length (decodePixel raw i fr) = length fr"
  by (simp add: decodePixel_def Let_def)

subsection \<open>Rounding\<close>

lemma rne_div_error:
  assumes "0 < d"
  shows "\<bar>real_of_int (rne_div n d) - real_of_int n / real_of_int d\<bar> \<le> 1 / 2"
proof -
  define q where "q = n div d"
  define r where "r = n mod d"
  have r: "0 \<le> r" "r < d" using assms by (simp_all add: r_def)
  have "n = q * d + r" by (simp add: q_def r_def)
  then have "real_of_int n = real_of_int q * real_of_int d + real_of_int r"
    by (metis of_int_add of_int_mult)
  then have x: "real_of_int n / real_of_int d = real_of_int q + real_of_int r / real_of_int d"
    using assms by (simp add: field_simps)
  have frac: "0 \<le> real_of_int r / real_of_int d" "real_of_int r / real_of_int d < 1"
    using r assms by simp_all
  consider "2 * r < d" | "d < 2 * r" | "2 * r = d" by linarith
  then show ?thesis
  proof cases
    case 1
    then have "real_of_int (2 * r) < real_of_int d" by (simp only: of_int_less_iff)
    then have "real_of_int r / real_of_int d < 1 / 2" using assms by (simp add: field_simps)
    moreover have "rne_div n d = q" using 1 by (simp add: rne_div_def q_def r_def Let_def)
    ultimately show ?thesis using frac by (simp add: x)
  next
    case 2
    then have "real_of_int d < real_of_int (2 * r)" by (simp only: of_int_less_iff)
    then have "1 / 2 < real_of_int r / real_of_int d" using assms by (simp add: field_simps)
    moreover have "rne_div n d = q + 1" using 2 by (simp add: rne_div_def q_def r_def Let_def)
    ultimately show ?thesis using frac by (simp add: x)
  next
    case 3
    then have "real_of_int (2 * r) = real_of_int d" by simp
    then have h: "real_of_int r / real_of_int d = 1 / 2" using assms by (simp add: field_simps)
    have "rne_div n d = q \<or> rne_div n d = q + 1"
      using 3 by (simp add: rne_div_def q_def r_def Let_def)
    then show ?thesis
    proof
      assume "rne_div n d = q"
      then show ?thesis unfolding x h by simp
    next
      assume "rne_div n d = q + 1"
      then show ?thesis unfolding x h by simp
    qed
  qed
qed

lemma log2_up_le: "0 < d \<Longrightarrow> n < d * 2 ^ Suc k \<Longrightarrow> log2_up n d \<le> int k"
proof (induction k arbitrary: d)
  case 0
  then show ?case by (subst log2_up.simps) simp
next
  case (Suc k)
  show ?case
  proof (cases "2 * d \<le> n")
    case True
    have "log2_up n (2 * d) \<le> int k"
      using Suc.prems by (intro Suc.IH) (simp_all add: mult.assoc)
    with True Suc.prems show ?thesis by (subst log2_up.simps) simp
  next
    case False
    then show ?thesis by (subst log2_up.simps) simp
  qed
qed

lemma log2_down_le: "log2_down n d \<le> 0"
proof (induction n d rule: log2_down.induct)
  case (1 n d)
  show ?case
  proof (cases "0 < n \<and> n < d")
    case True
    with "1.IH" show ?thesis by (subst log2_down.simps) simp
  next
    case False
    then show ?thesis by (subst log2_down.simps) auto
  qed
qed

lemma ilog2_le: "0 < d \<Longrightarrow> n < d * 2 ^ Suc k \<Longrightarrow> ilog2 n d \<le> int k"
  using log2_up_le [of d n k] log2_down_le [of n d] by (simp add: ilog2_def)

lemma pow2_split: "(2::real) ^ nat (- e) / 2 ^ nat e = 2 powi (- e)"
  by (cases "0 \<le> e") (simp_all add: power_int_def field_simps)

lemma round_to_error:
  assumes "0 < d" and "\<bar>n\<bar> < d * 2 ^ Suc k"
  shows "\<bar>fval (round_to p n d) - real_of_int n / real_of_int d\<bar> \<le> 2 powi (int k - int p)"
proof (cases "n = 0")
  case True
  then show ?thesis by (simp add: round_to_def fval_def)
next
  case False
  define e where "e = ilog2 \<bar>n\<bar> d - (int p - 1)"
  define N where "N = n * 2 ^ nat (- e)"
  define D where "D = d * 2 ^ nat e"
  have D: "0 < D" using assms(1) by (simp add: D_def)
  have rt: "round_to p n d = (rne_div N D, e)"
    using False by (simp add: round_to_def e_def N_def D_def Let_def)
  have e_le: "e \<le> int k - int p + 1"
    using ilog2_le [OF assms] by (simp add: e_def)
  have ND: "real_of_int N / real_of_int D = real_of_int n / real_of_int d * 2 powi (- e)"
    using pow2_split [of e] by (simp add: N_def D_def field_simps)
  have u: "(0::real) < 2 powi e" by simp
  have "fval (round_to p n d) - real_of_int n / real_of_int d =
      (real_of_int (rne_div N D) - real_of_int N / real_of_int D) * 2 powi e"
    by (simp add: rt fval_def ND algebra_simps power_int_minus)
  then have "\<bar>fval (round_to p n d) - real_of_int n / real_of_int d\<bar> =
      \<bar>real_of_int (rne_div N D) - real_of_int N / real_of_int D\<bar> * 2 powi e"
    by (simp add: abs_mult)
  also have "\<dots> \<le> 1 / 2 * 2 powi e"
    using rne_div_error [OF D, of N] u by (intro mult_right_mono) simp_all
  also have "\<dots> = 2 powi (e - 1)"
    by (simp add: power_int_diff)
  also have "\<dots> \<le> 2 powi (int k - int p)"
    using e_le by (intro power_int_increasing) simp_all
  finally show ?thesis .
qed


lemma fval_ratio:
  "real_of_int (fst f * 2 ^ nat (snd f)) / real_of_int (2 ^ nat (- snd f)) = fval f"
  by (cases "0 \<le> snd f") (simp_all add: fval_def power_int_def field_simps)

lemma to_float_error:
  assumes "\<bar>fval f\<bar> < 512"
  shows "\<bar>fval (to_float f) - fval f\<bar> \<le> 2 powi (- 16)"
proof -
  define n where "n = fst f * 2 ^ nat (snd f)"
  define d where "d = (2::int) ^ nat (- snd f)"
  have d: "0 < d" by (simp add: d_def)
  have ratio: "real_of_int n / real_of_int d = fval f"
    unfolding n_def d_def by (rule fval_ratio)
  have "\<bar>real_of_int n\<bar> / real_of_int d < 512"
    using assms d by (simp add: ratio [symmetric])
  then have "\<bar>real_of_int n\<bar> < real_of_int (d * 512)"
    using d by (simp add: field_simps)
  then have "real_of_int \<bar>n\<bar> < real_of_int (d * 512)" by simp
  then have "\<bar>n\<bar> < d * 512" by (simp only: of_int_less_iff)
  then have "\<bar>n\<bar> < d * 2 ^ Suc 8" by simp
  from round_to_error [OF d this, of 24] show ?thesis
    by (simp add: to_float_def n_def [symmetric] d_def [symmetric] ratio)
qed

lemma double_div_error:
  assumes "- 32768 \<le> r" and "r \<le> 32767"
  shows "\<bar>fval (double_div r 100) - real_of_int r / 100\<bar> \<le> 2 powi (- 45)"
proof -
  have "\<bar>r\<bar> < 100 * 2 ^ Suc 8" using assms by simp
  from round_to_error [OF _ this, of 53] show ?thesis
    by (simp add: double_div_def)
qed

lemma centi_float_error:
  assumes "- 32768 \<le> r" and "r \<le> 32767"
  shows "\<bar>centi_float r - real_of_int r / 100\<bar> \<le> 1 / 2 ^ 16 + 1 / 2 ^ 45"
proof -
  have e1: "\<bar>fval (double_div r 100) - real_of_int r / 100\<bar> \<le> 2 powi (- 45)"
    using assms by (rule double_div_error)
  have "\<bar>real_of_int r / 100\<bar> \<le> 32768 / 100"
    using assms by (simp add: abs_le_iff)
  moreover have "(2::real) powi (- 45) \<le> 1"
    by (simp add: power_int_minus field_simps)
  ultimately have "\<bar>fval (double_div r 100)\<bar> < 512"
    using e1 by linarith
  then have e2: "\<bar>fval (to_float (double_div r 100)) - fval (double_div r 100)\<bar> \<le> 2 powi (- 16)"
    by (rule to_float_error)
  have p16: "(2::real) powi (- 16) = 1 / 2 ^ 16" and p45: "(2::real) powi (- 45) = 1 / 2 ^ 45"
    by (simp_all add: power_int_minus field_simps)
  from e1 e2 show ?thesis
    unfolding centi_float_def p16 p45 by linarith
qed

lemmas float_eval = centi_float_def fval_def to_float_def double_div_def round_to_def ilog2_def
  log2_up.simps log2_down.simps rne_div_def Let_def

lemma centi_float_m4000: "centi_float (- 4000) = - 40"
  by (simp add: float_eval)

lemma centi_float_30000: "centi_float 30000 = 300"
  by (simp add: float_eval)

lemma centi_float_guard:
  assumes "- 32768 \<le> r" and "r \<le> 32767"
  shows "(- 40 < centi_float r \<and> centi_float r < 300) = (- 4000 < r \<and> r < 30000)"
proof -
  have err: "\<bar>centi_float r - real_of_int r / 100\<bar> \<le> 1 / 1000"
  proof -
    have "(1::real) / 2 ^ 16 + 1 / 2 ^ 45 \<le> 1 / 1000" by simp
    with centi_float_error [OF assms] show ?thesis by linarith
  qed
  consider "r < - 4000" | "r = - 4000" | "- 4000 < r \<and> r < 30000" | "r = 30000" | "30000 < r"
    by linarith
  then show ?thesis
  proof cases
    case 1
    then have "real_of_int r \<le> real_of_int (- 4001)" by simp
    then have "real_of_int r / 100 \<le> - 4001 / 100" by simp
    with err have "centi_float r < - 40" by linarith
    with 1 show ?thesis by simp
  next
    case 2
    then show ?thesis by (simp add: centi_float_m4000)
  next
    case 3
    then have "- 3999 \<le> r" "r \<le> 29999" by simp_all
    then have "real_of_int (- 3999) \<le> real_of_int r" "real_of_int r \<le> real_of_int 29999"
      by (simp_all only: of_int_le_iff)
    then have "- 3999 / 100 \<le> real_of_int r / 100" "real_of_int r / 100 \<le> 29999 / 100"
      by simp_all
    with err have "- 40 < centi_float r \<and> centi_float r < 300" by linarith
    with 3 show ?thesis by simp
  next
    case 4
    then show ?thesis by (simp add: centi_float_30000)
  next
    case 5
    then have "real_of_int 30001 \<le> real_of_int r" by simp
    then have "30001 / 100 \<le> real_of_int r / 100" by simp
    with err have "300 < centi_float r" by linarith
    with 5 show ?thesis by simp
  qed
qed

subsection \<open>Decoding\<close>

lemma int16_of_cat: "int16_of hi lo = word_cat hi lo"
  unfolding int16_of_def
  by (rule bit_word_eqI) (auto simp add: bit_simps dest: bit_imp_le_length)

lemma uint_cat: "uint (word_cat (hi::byte) (lo::byte) :: 16 word) = 256 * uint hi + uint lo"
proof -
  have lo: "0 \<le> uint lo" "uint lo < 256" using uint_lt2p [of lo] by simp_all
  have hi: "0 \<le> uint hi" "uint hi < 256" using uint_lt2p [of hi] by simp_all
  have "uint (word_cat hi lo :: 16 word) = take_bit 16 (concat_bit 8 (uint lo) (uint hi))"
    by (simp add: word_cat_eq' uint_word_of_int_eq)
  also have "concat_bit 8 (uint lo) (uint hi) = uint lo + 256 * uint hi"
    using lo by (simp add: concat_bit_eq take_bit_int_eq_self push_bit_eq_mult)
  also have "take_bit 16 (uint lo + 256 * uint hi) = uint lo + 256 * uint hi"
    using lo hi by (intro take_bit_int_eq_self) simp_all
  finally show ?thesis by simp
qed

lemma signed16:
  "0 \<le> u \<Longrightarrow> u < 65536 \<Longrightarrow> signed_take_bit 15 (u::int) = (if u < 32768 then u else u - 65536)"
proof (cases "u < 32768")
  case True
  assume "0 \<le> u"
  with True have "(u + 32768) mod 65536 = u + 32768"
    by (intro mod_pos_pos_trivial) simp_all
  with True show ?thesis
    by (simp add: signed_take_bit_eq_take_bit_shift take_bit_eq_mod)
next
  case False
  assume "u < 65536"
  with False have "(u - 32768) mod 65536 = u - 32768"
    by (intro mod_pos_pos_trivial) simp_all
  moreover have "u + 32768 = u - 32768 + 65536"
    by arith
  then have "(u + 32768) mod 65536 = (u - 32768 + 65536) mod 65536"
    by (rule arg_cong)
  ultimately have "(u + 32768) mod 65536 = u - 32768"
    by (simp only: mod_add_self2)
  with False show ?thesis
    by (simp add: signed_take_bit_eq_take_bit_shift take_bit_eq_mod)
qed

lemma sint_int16_of: "sint (int16_of hi lo) = le_int16 lo hi"
proof -
  have lo: "0 \<le> uint lo" "uint lo < 256" using uint_lt2p [of lo] by simp_all
  have hi: "0 \<le> uint hi" "uint hi < 256" using uint_lt2p [of hi] by simp_all
  have "sint (int16_of hi lo) = signed_take_bit 15 (256 * uint hi + uint lo)"
    by (simp add: int16_of_cat sint_uint uint_cat)
  also have "\<dots> = le_int16 lo hi"
    unfolding le_int16_def Let_def using lo hi by (intro signed16) simp_all
  finally show ?thesis .
qed

lemma le_int16_range: "- 32768 \<le> le_int16 lo hi \<and> le_int16 lo hi \<le> 32767"
proof -
  define u where "u = 256 * uint hi + uint lo"
  have "uint lo < 256" "uint hi < 256" using uint_lt2p [of lo] uint_lt2p [of hi] by simp_all
  then have u: "0 \<le> u" "u < 65536" by (simp_all add: u_def)
  have "le_int16 lo hi = (if u < 32768 then u else u - 65536)"
    by (simp add: le_int16_def Let_def u_def)
  with u show ?thesis by (cases "u < 32768") simp_all
qed

lemma celsius_int16_of: "celsius (int16_of hi lo) = centi_float (le_int16 lo hi)"
  by (simp only: celsius_def sint_int16_of)

lemma celsius_raw_at:
  "celsius (raw_at raw i) = centi_float (le_int16 (raw ! (2 * i)) (raw ! (2 * i + 1)))"
  by (simp add: raw_at_def celsius_int16_of mult.commute)

lemma plausible_iff: "(- 40 < real_of_int r / 100 \<and> real_of_int r / 100 < 300) = plausible r"
proof -
  have "(- 40 < real_of_int r / 100) = (real_of_int (- 4000) < real_of_int r)"
    by (simp add: field_simps)
  moreover have "(real_of_int r / 100 < 300) = (real_of_int r < real_of_int 30000)"
    by (simp add: field_simps)
  ultimately show ?thesis
    unfolding plausible_def of_int_less_iff by simp
qed

lemma sample_guard:
  "(- 40 < centi_float (le_int16 lo hi) \<and> centi_float (le_int16 lo hi) < 300) =
     plausible (le_int16 lo hi)"
  using le_int16_range [of lo hi] by (simp add: centi_float_guard plausible_def)

lemma plausible_range: "plausible r \<Longrightarrow> - 40 < centi_float r \<and> centi_float r < 300"
  using centi_float_guard [of r] by (simp add: plausible_def)

lemma decodePixel_same: "i < length fr \<Longrightarrow> decodePixel raw i fr ! i = filtered raw i (fr ! i)"
  by (simp add: decodePixel_def filtered_def Let_def)

lemma decodePixel_other: "j \<noteq> i \<Longrightarrow> decodePixel raw i fr ! j = fr ! j"
  by (simp add: decodePixel_def Let_def)

lemma length_decodeLoop [simp]: "length (decodeLoop i raw fr) = length fr"
  by (induction i raw fr rule: decodeLoop.induct) (subst decodeLoop.simps, simp)

lemma decodeLoop_nth:
  "j < length fr \<Longrightarrow>
   decodeLoop i raw fr ! j = (if i \<le> j \<and> j < 768 then filtered raw j (fr ! j) else fr ! j)"
proof (induction i raw fr rule: decodeLoop.induct)
  case (1 i raw fr)
  show ?case
  proof (cases "i < 768")
    case False
    then show ?thesis by (subst decodeLoop.simps) simp
  next
    case True
    have step: "decodeLoop i raw fr = decodeLoop (Suc i) raw (decodePixel raw i fr)"
      using True by (subst decodeLoop.simps) simp
    have ih: "decodeLoop (Suc i) raw (decodePixel raw i fr) ! j =
        (if Suc i \<le> j \<and> j < 768 then filtered raw j (decodePixel raw i fr ! j)
         else decodePixel raw i fr ! j)"
      using "1.IH" [OF True] "1.prems" by simp
    show ?thesis
    proof (cases "j = i")
      case True
      with \<open>i < 768\<close> "1.prems" show ?thesis
        unfolding step ih by (simp add: decodePixel_same)
    next
      case False
      then show ?thesis
        by (auto simp: step ih decodePixel_other)
    qed
  qed
qed

lemma decodeFrame_nth:
  "j < length fr \<Longrightarrow> j < 768 \<Longrightarrow> decodeFrame raw fr ! j = filtered raw j (fr ! j)"
  by (simp add: decodeFrame_def decodeLoop_nth)

lemma length_decodeFrame [simp]: "length (decodeFrame raw fr) = length fr"
  by (simp add: decodeFrame_def)

lemma filtered_sample:
  "filtered raw i old = (if plausible (sample raw i) then centi_float (sample raw i) else old)"
  by (simp only: filtered_def celsius_raw_at sample_def Let_def sample_guard)

lemma filtered_le:
  "filtered raw i old =
     (let r = le_int16 (raw ! (2 * i)) (raw ! (2 * i + 1)) in
      if - 40 < real_of_int r / 100 \<and> real_of_int r / 100 < 300 then centi_float r else old)"
  by (simp only: filtered_sample sample_def Let_def plausible_iff)

text \<open>
  Claim C2. For a 1540-byte \<^verbatim>\<open>rawData\<close>, a 768-cell grid and a pixel index
  \<open>i < 768\<close>, \<^verbatim>\<open>decodeFrame\<close> reads the signed little-endian 16-bit value \<open>r\<close>
  of bytes \<open>2i\<close> and \<open>2i+1\<close>; when \<open>r / 100\<close> lies strictly between -40 and 300
  the cell \<open>i\<close> becomes the \<^verbatim>\<open>float\<close> value of \<^verbatim>\<open>r / 100.0\<close>, otherwise the cell
  keeps its prior value. That \<^verbatim>\<open>float\<close> is \<open>r / 100\<close> up to the rounding of the two
  formats.
\<close>

theorem decodeFrame_pixel:
  assumes "length raw = 1540" and "length fr = 768" and "i < 768"
  shows "decodeFrame raw fr ! i =
     (let r = le_int16 (raw ! (2 * i)) (raw ! (2 * i + 1)) in
      if - 40 < real_of_int r / 100 \<and> real_of_int r / 100 < 300 then centi_float r
      else fr ! i) \<and>
     \<bar>centi_float (le_int16 (raw ! (2 * i)) (raw ! (2 * i + 1))) -
        real_of_int (le_int16 (raw ! (2 * i)) (raw ! (2 * i + 1))) / 100\<bar>
       \<le> 1 / 2 ^ 16 + 1 / 2 ^ 45"
proof -
  have "decodeFrame raw fr ! i =
     (let r = le_int16 (raw ! (2 * i)) (raw ! (2 * i + 1)) in
      if - 40 < real_of_int r / 100 \<and> real_of_int r / 100 < 300 then centi_float r
      else fr ! i)"
    using assms by (simp add: decodeFrame_nth filtered_le)
  moreover have "\<bar>centi_float (le_int16 (raw ! (2 * i)) (raw ! (2 * i + 1))) -
        real_of_int (le_int16 (raw ! (2 * i)) (raw ! (2 * i + 1))) / 100\<bar>
       \<le> 1 / 2 ^ 16 + 1 / 2 ^ 45"
    using le_int16_range [of "raw ! (2 * i)" "raw ! (2 * i + 1)"]
    by (intro centi_float_error) simp_all
  ultimately show ?thesis by blast
qed

theorem decodeFrame_pixel_witness:
  "length ((replicate 1540 0)[0 := 0xF7, 1 := 0x09 :: byte]) = 1540 \<and>
   length (replicate 768 (0::real)) = 768 \<and> (0::nat) < 768 \<and>
   decodeFrame ((replicate 1540 0)[0 := 0xF7, 1 := 0x09]) (replicate 768 0) ! 0 =
     13374587 / 524288"
  using decodeFrame_pixel [of "(replicate 1540 0)[0 := 0xF7, 1 := 0x09]" "replicate 768 0" 0]
  by (simp add: le_int16_def float_eval)

lemma length_clearLoop [simp]: "length (clearLoop i g) = length g"
  by (induction i g rule: clearLoop.induct) (subst clearLoop.simps, simp)

lemma clearLoop_nth:
  "j < length g \<Longrightarrow> clearLoop i g ! j = (if i \<le> j \<and> j < 768 then 0 else g ! j)"
proof (induction i g rule: clearLoop.induct)
  case (1 i g)
  show ?case
  proof (cases "i < 768")
    case False
    then show ?thesis by (subst clearLoop.simps) simp
  next
    case True
    have "clearLoop i g ! j = clearLoop (Suc i) (g[i := 0]) ! j"
      using True by (subst clearLoop.simps) simp
    also have "\<dots> = (if Suc i \<le> j \<and> j < 768 then 0 else g[i := 0] ! j)"
      using "1.IH" [OF True] "1.prems" by simp
    also have "\<dots> = (if i \<le> j \<and> j < 768 then 0 else g ! j)"
      using True "1.prems" by (cases "j = i") auto
    finally show ?thesis .
  qed
qed

lemma clearLoop_all: "length g = 768 \<Longrightarrow> clearLoop 0 g = replicate 768 0"
  by (rule nth_equalityI) (simp_all add: clearLoop_nth)

lemma frame_after_setup: "frame after_setup = replicate 768 0"
  by (simp add: after_setup_def clearLoop_all)

lemma length_decodes [simp]: "length (decodes raws fr) = length fr"
  by (induction raws arbitrary: fr) simp_all

lemma decodes_nth:
  "i < length fr \<Longrightarrow> i < 768 \<Longrightarrow>
   decodes raws fr ! i = latest (map (\<lambda>raw. sample raw i) raws) (fr ! i)"
proof (induction raws arbitrary: fr)
  case Nil
  then show ?case by (simp add: latest_def)
next
  case (Cons raw raws)
  have "decodes (raw # raws) fr ! i =
      latest (map (\<lambda>raw. sample raw i) raws) (decodeFrame raw fr ! i)"
    using Cons.IH [of "decodeFrame raw fr"] Cons.prems by simp
  also have "decodeFrame raw fr ! i =
      (if plausible (sample raw i) then centi_float (sample raw i) else fr ! i)"
    using Cons.prems by (simp add: decodeFrame_nth filtered_sample)
  finally show ?case
    by (simp add: latest_def Let_def)
qed

lemma latest_range: "- 40 < old \<Longrightarrow> old < 300 \<Longrightarrow> - 40 < latest rs old \<and> latest rs old < 300"
proof (cases "filter plausible rs = []")
  case True
  assume "- 40 < old" "old < 300"
  with True show ?thesis by (simp add: latest_def)
next
  case False
  then have "last (filter plausible rs) \<in> set (filter plausible rs)"
    by (rule last_in_set)
  then have "plausible (last (filter plausible rs))"
    by simp
  then have "- 40 < centi_float (last (filter plausible rs)) \<and>
      centi_float (last (filter plausible rs)) < 300"
    by (rule plausible_range)
  with False show ?thesis by (simp add: latest_def)
qed

text \<open>
  Claim C3, as amended. Starting from the grid that \<^verbatim>\<open>setup\<close> clears to 0.0,
  after any run of complete 1540-byte frames every one of the 768 cells holds the
  \<^verbatim>\<open>float\<close> of the most recent sample that lay strictly between -40.00 and 300.00
  degrees (or 0.0 when there was none), so the grid never holds a value outside that
  open interval; a further decode writes the new sample when it lies strictly inside
  the interval and leaves the cell unchanged otherwise. Every value is a finite
  number: the decoder has no operation that yields a NaN.
\<close>

theorem grid_invariant:
  assumes "list_all (\<lambda>raw. length raw = 1540) raws" and "length raw = 1540" and "i < 768"
  shows "length (decodes raws (frame after_setup)) = 768 \<and>
     decodes raws (frame after_setup) ! i = latest (map (\<lambda>raw. sample raw i) raws) 0 \<and>
     - 40 < decodes raws (frame after_setup) ! i \<and>
     decodes raws (frame after_setup) ! i < 300 \<and>
     decodeFrame raw (decodes raws (frame after_setup)) ! i =
       (if - 4000 < sample raw i \<and> sample raw i < 30000 then centi_float (sample raw i)
        else decodes raws (frame after_setup) ! i)"
proof -
  have len: "length (decodes raws (frame after_setup)) = 768"
    by (simp add: frame_after_setup)
  have eq: "decodes raws (frame after_setup) ! i = latest (map (\<lambda>raw. sample raw i) raws) 0"
    using assms(3) by (simp add: decodes_nth frame_after_setup)
  have lo: "- 40 < decodes raws (frame after_setup) ! i"
    unfolding eq using latest_range [of 0] by simp
  have hi: "decodes raws (frame after_setup) ! i < 300"
    unfolding eq using latest_range [of 0] by simp
  have step: "decodeFrame raw (decodes raws (frame after_setup)) ! i =
       (if - 4000 < sample raw i \<and> sample raw i < 30000 then centi_float (sample raw i)
        else decodes raws (frame after_setup) ! i)"
    using assms(3) len by (simp add: decodeFrame_nth filtered_sample plausible_def)
  from len eq lo hi step show ?thesis by blast
qed

theorem grid_invariant_witness:
  "list_all (\<lambda>raw. length raw = 1540) [(replicate 1540 0)[0 := 0xF7, 1 := 0x09 :: byte]] \<and>
   length ((replicate 1540 0)[0 := 0x30, 1 := 0x75 :: byte]) = 1540 \<and> (0::nat) < 768 \<and>
   decodes [(replicate 1540 0)[0 := 0xF7, 1 := 0x09]] (frame after_setup) ! 0
     = 13374587 / 524288 \<and>
   decodeFrame ((replicate 1540 0)[0 := 0x30, 1 := 0x75])
     (decodes [(replicate 1540 0)[0 := 0xF7, 1 := 0x09]] (frame after_setup)) ! 0
     = 13374587 / 524288"
  using grid_invariant [of "[(replicate 1540 0)[0 := 0xF7, 1 := 0x09]]"
      "(replicate 1540 0)[0 := 0x30, 1 := 0x75]" 0]
  by (simp add: latest_def sample_def plausible_def le_int16_def float_eval)

text \<open>
  Claim C3 as stated fails at the lower bound: a sample of exactly -40.00 degrees
  (raw value -4000, bytes 60 F0) is not written; the cell keeps its 0.0.
\<close>

theorem minus_forty_not_written:
  "le_int16 0x60 0xF0 = - 4000 \<and>
   decodeFrame ((replicate 1540 0)[0 := 0x60, 1 := 0xF0]) (frame after_setup) ! 0 = 0"
  by (simp add: decodeFrame_nth filtered_le frame_after_setup le_int16_def Let_def)


lemma showLoop_fst_length [simp]: "length (fst (showLoop i raw acc)) = length (fst acc)"
  by (induction i raw acc rule: showLoop.induct)
    (subst showLoop.simps, simp add: showPixel_def Let_def split: prod.splits)

lemma fst_showPixel: "fst (showPixel raw i acc) = decodePixel raw i (fst acc)"
  by (simp add: showPixel_def decodePixel_def Let_def split: prod.splits)

lemma fst_showLoop: "fst (showLoop i raw acc) = decodeLoop i raw (fst acc)"
proof (induction i raw acc rule: showLoop.induct)
  case (1 i raw acc)
  show ?case
  proof (cases "i < 768")
    case True
    then have "fst (showLoop i raw acc) = fst (showLoop (Suc i) raw (showPixel raw i acc))"
      by (subst showLoop.simps) simp
    also have "\<dots> = decodeLoop (Suc i) raw (decodePixel raw i (fst acc))"
      using "1.IH" [OF True] by (simp add: fst_showPixel)
    also have "\<dots> = decodeLoop i raw (fst acc)"
      using True by (subst (2) decodeLoop.simps) simp
    finally show ?thesis .
  next
    case False
    then show ?thesis
      by (subst showLoop.simps, subst decodeLoop.simps) simp
  qed
qed

text \<open>
  Claim C4, as amended. In the standalone sketch, for a 1540-byte \<^verbatim>\<open>rawData\<close>,
  \<^verbatim>\<open>decodeAndShow\<close> yields the grid that \<^verbatim>\<open>decodeFrame\<close> yields and reports as
  ambient temperature the \<^verbatim>\<open>float\<close> value of \<^verbatim>\<open>r / 100.0\<close>, where \<open>r\<close> is the
  signed little-endian 16-bit value of bytes 1536 and 1537, whatever that value is: no
  filter and no range check applies to it. That \<^verbatim>\<open>float\<close> is \<open>r / 100\<close> up to the
  rounding of the two formats.
\<close>

theorem decodeAndShow_ambient:
  assumes "length (rawData s) = 1540"
  shows "frame (decodeAndShow s) = decodeFrame (rawData s) (frame s) \<and>
    (\<exists>minT maxT. console (decodeAndShow s) =
       console s @ [Ambiante (centi_float (le_int16 (rawData s ! 1536) (rawData s ! 1537))) minT maxT]) \<and>
    \<bar>centi_float (le_int16 (rawData s ! 1536) (rawData s ! 1537)) -
       real_of_int (le_int16 (rawData s ! 1536) (rawData s ! 1537)) / 100\<bar>
      \<le> 1 / 2 ^ 16 + 1 / 2 ^ 45"
proof -
  have "fst (showLoop 0 (rawData s) (frame s, 100, - 100)) = decodeFrame (rawData s) (frame s)"
    by (simp add: fst_showLoop decodeFrame_def)
  then have "frame (decodeAndShow s) = decodeFrame (rawData s) (frame s) \<and>
    (\<exists>minT maxT. console (decodeAndShow s) =
       console s @ [Ambiante (centi_float (le_int16 (rawData s ! 1536) (rawData s ! 1537))) minT maxT])"
    by (auto simp: decodeAndShow_def celsius_int16_of Let_def split: prod.splits)
  moreover have "\<bar>centi_float (le_int16 (rawData s ! 1536) (rawData s ! 1537)) -
       real_of_int (le_int16 (rawData s ! 1536) (rawData s ! 1537)) / 100\<bar>
      \<le> 1 / 2 ^ 16 + 1 / 2 ^ 45"
    using le_int16_range [of "rawData s ! 1536" "rawData s ! 1537"]
    by (intro centi_float_error) simp_all
  ultimately show ?thesis by blast
qed

theorem decodeAndShow_ambient_witness:
  "length (rawData \<lparr>frame = replicate 768 0, rawData = (replicate 1540 0)[1536 := 0xF7, 1537 := 0x09],
      serial = \<lparr>rxbuf = [], wire = []\<rparr>, console = []\<rparr>) = 1540 \<and>
   (\<exists>minT maxT. console (decodeAndShow \<lparr>frame = replicate 768 0,
      rawData = (replicate 1540 0)[1536 := 0xF7, 1537 := 0x09],
      serial = \<lparr>rxbuf = [], wire = []\<rparr>, console = []\<rparr>)
        = [Ambiante (13374587 / 524288) minT maxT])"
  using decodeAndShow_ambient [of "\<lparr>frame = replicate 768 0,
      rawData = (replicate 1540 0)[1536 := 0xF7, 1537 := 0x09],
      serial = \<lparr>rxbuf = [], wire = []\<rparr>, console = []\<rparr>"]
  by (simp add: le_int16_def float_eval)

lemma raw_at_prefix:
  assumes "take 1536 raw1 = take 1536 raw2" and "j < 768"
  shows "raw_at raw1 j = raw_at raw2 j"
proof -
  have "raw1 ! k = raw2 ! k" if "k < 1536" for k
  proof -
    have "raw1 ! k = take 1536 raw1 ! k" using that by simp
    also have "\<dots> = take 1536 raw2 ! k" by (simp only: assms(1))
    also have "\<dots> = raw2 ! k" using that by simp
    finally show ?thesis .
  qed
  then show ?thesis using assms(2) by (simp add: raw_at_def)
qed

lemma decodeFrame_prefix:
  assumes "take 1536 raw1 = take 1536 raw2"
  shows "decodeFrame raw1 fr = decodeFrame raw2 fr"
proof (rule nth_equalityI)
  show "length (decodeFrame raw1 fr) = length (decodeFrame raw2 fr)" by simp
next
  fix j assume "j < length (decodeFrame raw1 fr)"
  then have j: "j < length fr" by simp
  show "decodeFrame raw1 fr ! j = decodeFrame raw2 fr ! j"
    using j raw_at_prefix [OF assms, of j]
    by (simp add: decodeFrame_def decodeLoop_nth filtered_def)
qed

text \<open>
  Claim C10. Two 1540-byte raw frames that agree on bytes 0 to 1535 decode, from the
  same prior grid, to the same grid, and the payload handed to the WebSocket broadcast
  is the same: nothing published depends on bytes 1536 to 1539.
\<close>

theorem trailing_bytes_noninterference:
  assumes "length raw1 = 1540" and "length raw2 = 1540"
    and "take 1536 raw1 = take 1536 raw2"
  shows "decodeFrame raw1 (frame s) = decodeFrame raw2 (frame s) \<and>
     frame (publishFrame (s\<lparr>rawData := raw1\<rparr>)) = frame (publishFrame (s\<lparr>rawData := raw2\<rparr>)) \<and>
     webSocket (publishFrame (s\<lparr>rawData := raw1\<rparr>)) = webSocket (publishFrame (s\<lparr>rawData := raw2\<rparr>))"
  using decodeFrame_prefix [OF assms(3), of "frame s"]
  by (simp add: publishFrame_def Let_def)

theorem trailing_bytes_noninterference_witness:
  "length (replicate 1540 (7::byte)) = 1540 \<and>
   length ((replicate 1540 7)[1536 := 1, 1537 := 2, 1538 := 3, 1539 := 4 :: byte]) = 1540 \<and>
   take 1536 (replicate 1540 (7::byte)) =
     take 1536 ((replicate 1540 7)[1536 := 1, 1537 := 2, 1538 := 3, 1539 := 4]) \<and>
   webSocket (publishFrame (after_setup\<lparr>rawData := replicate 1540 7\<rparr>)) =
   webSocket (publishFrame
     (after_setup\<lparr>rawData := (replicate 1540 7)[1536 := 1, 1537 := 2, 1538 := 3, 1539 := 4]\<rparr>))"
  using trailing_bytes_noninterference [of "replicate 1540 7"
      "(replicate 1540 7)[1536 := 1, 1537 := 2, 1538 := 3, 1539 := 4]" after_setup]
  by simp

text \<open>
  Claim C4 as stated fails in the WiFi-serving sketches: \<^verbatim>\<open>decodeFrame\<close> yields the
  grid alone, and two raw frames with different ambient temperatures give the same
  result.
\<close>

theorem decodeFrame_ignores_ambient:
  "decodeFrame (replicate 1540 0) (replicate 768 0) =
     decodeFrame ((replicate 1540 0)[1536 := 1]) (replicate 768 0) \<and>
   le_int16 (replicate 1540 0 ! 1536) (replicate 1540 0 ! 1537) \<noteq>
     le_int16 ((replicate 1540 0)[1536 := 1] ! 1536) ((replicate 1540 0)[1536 := 1] ! 1537)"
proof -
  have "take 1536 (replicate 1540 (0::byte)) = take 1536 ((replicate 1540 0)[1536 := 1])"
    by simp
  then have "decodeFrame (replicate 1540 0) (replicate 768 0) =
     decodeFrame ((replicate 1540 0)[1536 := 1]) (replicate 768 0)"
    by (rule decodeFrame_prefix)
  then show ?thesis by (simp add: le_int16_def)
qed

subsection \<open>The sensor port and the header search\<close>

lemma drain_eq: "drain u = u\<lparr>rxbuf := [], wire := wire u @ map Rd (rxbuf u)\<rparr>"
proof (induction u rule: drain.induct)
  case (1 u)
  show ?case
  proof (cases "rxbuf u")
    case Nil
    then show ?thesis by (subst drain.simps) (simp add: available_def)
  next
    case (Cons b bs)
    then have rd: "snd (serial_read u) = u\<lparr>rxbuf := bs, wire := wire u @ [Rd b]\<rparr>"
      by (simp add: serial_read_def)
    have "drain u = drain (snd (serial_read u))"
      using Cons by (subst drain.simps) (simp add: available_def)
    also have "\<dots> = (snd (serial_read u))\<lparr>rxbuf := [],
        wire := wire (snd (serial_read u)) @ map Rd (rxbuf (snd (serial_read u)))\<rparr>"
      using Cons by (intro "1.IH") (simp add: available_def)
    finally show ?thesis by (simp add: rd Cons)
  qed
qed

lemma uint_5A: "(uint (b::byte) = 0x5A) = (b = 0x5A)"
  using word_uint_eq_iff [of b "0x5A"] by simp

lemma uint_02: "(uint (b::byte) = 0x02) = (b = 0x02)"
  using word_uint_eq_iff [of b "0x02"] by simp

lemma uint_06: "(uint (b::byte) = 0x06) = (b = 0x06)"
  using word_uint_eq_iff [of b "0x06"] by simp

lemma tryHeader_True:
  "tryHeader u = (True, u') \<Longrightarrow>
   \<exists>tl. rxbuf u = 0x5A # 0x5A # 0x02 # 0x06 # tl \<and> rxbuf u' = tl"
  apply (auto simp: tryHeader_def serial_read_def Let_def uint_5A uint_02 uint_06 split: list.splits if_splits prod.splits)
  done

lemma tryHeader_wire:
  "wire (snd (tryHeader u)) =
     wire u @ map Rd (take (length (rxbuf u) - length (rxbuf (snd (tryHeader u)))) (rxbuf u))"
  by (auto simp: tryHeader_def serial_read_def Let_def split: list.splits if_splits prod.splits)

lemma tryHeader_wire_ex: "\<exists>bs. wire (snd (tryHeader u)) = wire u @ map Rd bs"
  by (rule exI) (rule tryHeader_wire)

lemma tryHeader_rxbuf:
  "rxbuf (snd (tryHeader u)) = drop (length (rxbuf u) - length (rxbuf (snd (tryHeader u)))) (rxbuf u)"
  by (auto simp: tryHeader_def serial_read_def Let_def split: list.splits if_splits prod.splits)


lemma wire_receive [simp]: "wire (receive arrived u) = wire u"
  by (simp add: receive_def)

lemma rxbuf_receive [simp]: "rxbuf (receive arrived u) = rxbuf u @ arrived"
  by (simp add: receive_def)

lemma expiry_Nil [simp]: "expiry D st [] = 0"
  by (simp add: expiry_def)

lemma expiry_Cons [simp]:
  "expiry D st ((now, arrived) # ps) = (if now - st < D then Suc (expiry D st ps) else 0)"
  by (simp add: expiry_def)

lemma waitHeader_returns:
  "expiry D st ps < length ps \<Longrightarrow> \<exists>res. waitHeader D st ps u = Some res"
proof (induction ps arbitrary: u)
  case Nil
  then show ?case by simp
next
  case (Cons p ps)
  obtain now arrived where p: "p = (now, arrived)" by (cases p)
  show ?case
  proof (cases "now - st < D")
    case False
    then show ?thesis by (auto simp: p Let_def)
  next
    case True
    with Cons.prems have "expiry D st ps < length ps" by (simp add: p)
    then have "\<exists>res. waitHeader D st ps v = Some res" for v
      by (rule Cons.IH)
    with True show ?thesis
      by (auto simp: p Let_def split: prod.splits bool.splits)
  qed
qed

lemma waitHeader_position:
  "waitHeader D st ps u = Some (found, u', rest) \<Longrightarrow>
   \<exists>k. k < length ps \<and> rest = drop (Suc k) ps \<and>
       (if found then k < expiry D st ps else k = expiry D st ps)"
proof (induction ps arbitrary: u)
  case Nil
  then show ?case by simp
next
  case (Cons p ps)
  obtain now arrived where p: "p = (now, arrived)" by (cases p)
  show ?case
  proof (cases "now - st < D")
    case False
    with Cons.prems have "found = False" "rest = ps" by (simp_all add: p Let_def)
    with False show ?thesis by (intro exI [of _ 0]) (simp add: p)
  next
    case True
    note before = True
    show ?thesis
    proof (cases "4 \<le> available (receive arrived u) \<and> fst (tryHeader (receive arrived u))")
      case True
      with before Cons.prems have "found = True" "rest = ps"
        by (auto simp: p Let_def split: prod.splits bool.splits)
      with before show ?thesis by (intro exI [of _ 0]) (simp add: p)
    next
      case False
      with before Cons.prems obtain v where "waitHeader D st ps v = Some (found, u', rest)"
        by (auto simp: p Let_def split: prod.splits bool.splits if_splits)
      from Cons.IH [OF this] obtain k where k: "k < length ps" "rest = drop (Suc k) ps"
        "if found then k < expiry D st ps else k = expiry D st ps" by blast
      with before show ?thesis
        by (intro exI [of _ "Suc k"]) (auto simp: p)
    qed
  qed
qed

lemma waitHeader_wire:
  "waitHeader D st ps u = Some (found, u', rest) \<Longrightarrow> \<exists>bs. wire u' = wire u @ map Rd bs"
proof (induction ps arbitrary: u)
  case Nil
  then show ?case by simp
next
  case (Cons p ps)
  obtain now arrived where p: "p = (now, arrived)" by (cases p)
  let ?u1 = "receive arrived u"
  have tw: "\<exists>bs. wire (snd (tryHeader ?u1)) = wire u @ map Rd bs"
    using tryHeader_wire_ex [of ?u1] by simp
  show ?case
  proof (cases "now - st < D")
    case False
    with Cons.prems have "u' = ?u1" by (simp add: p Let_def)
    then show ?thesis by simp
  next
    case True
    note before = True
    show ?thesis
    proof (cases "4 \<le> available ?u1")
      case False
      with before Cons.prems have "waitHeader D st ps ?u1 = Some (found, u', rest)"
        by (simp add: p Let_def)
      from Cons.IH [OF this] show ?thesis by simp
    next
      case True
      show ?thesis
      proof (cases "fst (tryHeader ?u1)")
        case True
        with before \<open>4 \<le> available ?u1\<close> Cons.prems have "u' = snd (tryHeader ?u1)"
          by (auto simp: p Let_def split: prod.splits bool.splits)
        with tw show ?thesis by simp
      next
        case False
        with before \<open>4 \<le> available ?u1\<close> Cons.prems
        have "waitHeader D st ps (snd (tryHeader ?u1)) = Some (found, u', rest)"
          by (auto simp: p Let_def split: prod.splits bool.splits)
        from Cons.IH [OF this] obtain bs where "wire u' = wire (snd (tryHeader ?u1)) @ map Rd bs"
          by blast
        moreover from tw obtain cs where "wire (snd (tryHeader ?u1)) = wire u @ map Rd cs"
          by blast
        ultimately have "wire u' = wire u @ map Rd (cs @ bs)" by simp
        then show ?thesis by blast
      qed
    qed
  qed
qed

lemma arrivals_Cons [simp]: "arrivals ((now, arrived) # ps) = arrived @ arrivals ps"
  by (simp add: arrivals_def)

lemma waitHeader_found_header:
  "waitHeader D st ps u = Some (True, u', rest) \<Longrightarrow>
   \<exists>pre. rxbuf u @ arrivals ps = pre @ header @ rxbuf u' @ arrivals rest"
proof (induction ps arbitrary: u)
  case Nil
  then show ?case by simp
next
  case (Cons p ps)
  obtain now arrived where p: "p = (now, arrived)" by (cases p)
  let ?u1 = "receive arrived u"
  have before: "now - st < D"
    using Cons.prems by (auto simp: p Let_def split: if_splits)
  show ?case
  proof (cases "4 \<le> available ?u1")
    case False
    with before Cons.prems have "waitHeader D st ps ?u1 = Some (True, u', rest)"
      by (simp add: p Let_def)
    from Cons.IH [OF this] show ?thesis by (simp add: p)
  next
    case True
    show ?thesis
    proof (cases "fst (tryHeader ?u1)")
      case True
      then obtain v where v: "tryHeader ?u1 = (True, v)" by (cases "tryHeader ?u1") simp
      with before \<open>4 \<le> available ?u1\<close> Cons.prems have "u' = v" "rest = ps"
        by (simp_all add: p Let_def)
      moreover from tryHeader_True [OF v]
      have "rxbuf ?u1 = header @ rxbuf v" by (auto simp: header_def)
      ultimately have "rxbuf u @ arrivals (p # ps) = [] @ header @ rxbuf u' @ arrivals rest"
        by (simp add: p)
      then show ?thesis by blast
    next
      case False
      let ?v = "snd (tryHeader ?u1)"
      from False before \<open>4 \<le> available ?u1\<close> Cons.prems
      have "waitHeader D st ps ?v = Some (True, u', rest)"
        by (auto simp: p Let_def split: prod.splits bool.splits)
      from Cons.IH [OF this] obtain pre
        where pre: "rxbuf ?v @ arrivals ps = pre @ header @ rxbuf u' @ arrivals rest" by blast
      define k where "k = length (rxbuf ?u1) - length (rxbuf ?v)"
      have dv: "rxbuf ?v = drop k (rxbuf ?u1)"
        unfolding k_def by (rule tryHeader_rxbuf)
      have split: "take k (rxbuf ?u1) @ rxbuf ?v = rxbuf ?u1"
        unfolding dv by (rule append_take_drop_id)
      have "rxbuf u @ arrivals (p # ps) = rxbuf ?u1 @ arrivals ps"
        by (simp add: p)
      also have "\<dots> = (take k (rxbuf ?u1) @ rxbuf ?v) @ arrivals ps"
        by (simp only: split)
      finally have "rxbuf u @ arrivals (p # ps) = take k (rxbuf ?u1) @ rxbuf ?v @ arrivals ps"
        by simp
      then have "rxbuf u @ arrivals (p # ps) =
          (take k (rxbuf ?u1) @ pre) @ header @ rxbuf u' @ arrivals rest"
        by (simp add: pre)
      then show ?thesis by blast
    qed
  qed
qed

lemma requestSensorData_timeout:
  assumes "expiry 500 (startWait env) (polls env) < length (polls env)"
    and "\<not> (\<exists>pre post. arrivals (polls env) = pre @ header @ post)"
  shows "\<exists>s'. requestSensorData env s = Some (HeaderTimeout, s')"
proof -
  let ?u1 = "serial_write askData (drain (serial s))"
  from waitHeader_returns [OF assms(1)] obtain found u' rest
    where res: "waitHeader 500 (startWait env) (polls env) ?u1 = Some (found, u', rest)"
    by (metis prod_cases3)
  have "\<not> found"
  proof
    assume found
    with res have "waitHeader 500 (startWait env) (polls env) ?u1 = Some (True, u', rest)"
      by simp
    from waitHeader_found_header [OF this] obtain pre
      where "rxbuf ?u1 @ arrivals (polls env) = pre @ header @ rxbuf u' @ arrivals rest"
      by blast
    then have "arrivals (polls env) = pre @ header @ (rxbuf u' @ arrivals rest)"
      by (simp add: serial_write_def drain_eq)
    with assms(2) show False by blast
  qed
  with res show ?thesis by (simp add: requestSensorData_def Let_def)
qed

lemma loop_standalone_timeout:
  assumes "expiry 1000 (startWait env) (polls env) < length (polls env)"
    and "\<not> (\<exists>pre post. arrivals (polls env) = pre @ header @ post)"
  shows "\<exists>b'. loop_standalone env fin b = Some (HeaderTimeout, b', fin + 5000)"
proof -
  let ?u1 = "serial_write askData (drain (serial b))"
  from waitHeader_returns [OF assms(1)] obtain found u' rest
    where res: "waitHeader 1000 (startWait env) (polls env) ?u1 = Some (found, u', rest)"
    by (metis prod_cases3)
  have "\<not> found"
  proof
    assume found
    with res have "waitHeader 1000 (startWait env) (polls env) ?u1 = Some (True, u', rest)"
      by simp
    from waitHeader_found_header [OF this] obtain pre
      where "rxbuf ?u1 @ arrivals (polls env) = pre @ header @ rxbuf u' @ arrivals rest"
      by blast
    then have "arrivals (polls env) = pre @ header @ (rxbuf u' @ arrivals rest)"
      by (simp add: serial_write_def drain_eq)
    with assms(2) show False by blast
  qed
  with res show ?thesis by (simp add: loop_standalone_def delay_def Let_def)
qed

text \<open>
  Claim C9. Whatever the byte source does, a header search with deadline \<open>D\<close> (500 ms
  in \<^verbatim>\<open>requestSensorData\<close>, 1000 ms in the standalone \<^verbatim>\<open>loop\<close>) returns as soon
  as the clock is seen to have reached the deadline: if some observation of
  \<^verbatim>\<open>millis()\<close> is at or past the deadline, the search returns, it consumes no
  observation after the first such one, and unless the header was found it returns
  exactly there with \<^verbatim>\<open>headerFound\<close> false. The header is found only where the
  bytes 5A 5A 02 06 stand in the stream, directly before what is left of it. So a
  cycle whose source never yields these four bytes in a row ends in the time-out
  branch, in the WiFi-serving sketches and in the standalone one.
\<close>

theorem sync_deadline:
  assumes "expiry D st ps < length ps"
  shows "(\<exists>found u' rest. waitHeader D st ps u = Some (found, u', rest) \<and>
       (\<exists>k\<le>expiry D st ps. rest = drop (Suc k) ps) \<and>
       (found \<or> rest = drop (Suc (expiry D st ps)) ps) \<and>
       (found \<longrightarrow> (\<exists>pre. rxbuf u @ arrivals ps = pre @ header @ rxbuf u' @ arrivals rest))) \<and>
     (expiry 500 (startWait env) (polls env) < length (polls env) \<and>
        \<not> (\<exists>pre post. arrivals (polls env) = pre @ header @ post) \<longrightarrow>
        (\<exists>s'. requestSensorData env s = Some (HeaderTimeout, s'))) \<and>
     (expiry 1000 (startWait env) (polls env) < length (polls env) \<and>
        \<not> (\<exists>pre post. arrivals (polls env) = pre @ header @ post) \<longrightarrow>
        (\<exists>b'. loop_standalone env fin b = Some (HeaderTimeout, b', fin + 5000)))"
proof -
  from waitHeader_returns [OF assms] obtain found u' rest
    where res: "waitHeader D st ps u = Some (found, u', rest)"
    by (metis prod_cases3)
  from waitHeader_position [OF res] obtain k where k: "rest = drop (Suc k) ps"
    "if found then k < expiry D st ps else k = expiry D st ps" by blast
  have "\<exists>k\<le>expiry D st ps. rest = drop (Suc k) ps"
    using k by (intro exI [of _ k]) (simp split: if_splits)
  moreover have "found \<or> rest = drop (Suc (expiry D st ps)) ps"
    using k by (simp split: if_splits)
  moreover have "found \<longrightarrow> (\<exists>pre. rxbuf u @ arrivals ps = pre @ header @ rxbuf u' @ arrivals rest)"
  proof
    assume found
    with res have "waitHeader D st ps u = Some (True, u', rest)" by simp
    then show "\<exists>pre. rxbuf u @ arrivals ps = pre @ header @ rxbuf u' @ arrivals rest"
      by (rule waitHeader_found_header)
  qed
  ultimately have "\<exists>found u' rest. waitHeader D st ps u = Some (found, u', rest) \<and>
       (\<exists>k\<le>expiry D st ps. rest = drop (Suc k) ps) \<and>
       (found \<or> rest = drop (Suc (expiry D st ps)) ps) \<and>
       (found \<longrightarrow> (\<exists>pre. rxbuf u @ arrivals ps = pre @ header @ rxbuf u' @ arrivals rest))"
    using res by blast
  then show ?thesis
    using requestSensorData_timeout [of env s] loop_standalone_timeout [of env fin b] by blast
qed

theorem sync_deadline_witness:
  "expiry 500 0 [(0, []), (499, [0x06, 0x02, 0x5A, 0x00]), (500, []), (501, [])]
     < length [(0, []), (499, [0x06, 0x02, 0x5A, 0x00]), (500, []), (501, [] :: byte list)] \<and>
   (\<exists>u'. waitHeader 500 0 [(0, []), (499, [0x06, 0x02, 0x5A, 0x00]), (500, []), (501, [])]
      \<lparr>rxbuf = [], wire = []\<rparr> = Some (False, u', [(501, [])]))"
proof -
  let ?ps = "[(0, []), (499, [0x06, 0x02, 0x5A, 0x00]), (500, []), (501, [] :: byte list)]"
  have h: "expiry 500 0 ?ps < length ?ps" by simp
  have nohdr: "rxbuf \<lparr>rxbuf = [], wire = []\<rparr> @ arrivals ?ps \<noteq> pre @ header @ post" for pre post
  proof
    assume eq: "rxbuf \<lparr>rxbuf = [], wire = []\<rparr> @ arrivals ?ps = pre @ header @ post"
    then have "length (rxbuf \<lparr>rxbuf = [], wire = []\<rparr> @ arrivals ?ps)
        = length (pre @ header @ post)"
      by (rule arg_cong)
    then have "pre = []" "post = []" by (simp_all add: header_def arrivals_def)
    with eq show False by (simp add: header_def arrivals_def)
  qed
  from sync_deadline [OF h, of "\<lparr>rxbuf = [], wire = []\<rparr>"]
  obtain found u' rest
    where r: "waitHeader 500 0 ?ps \<lparr>rxbuf = [], wire = []\<rparr> = Some (found, u', rest)"
      "found \<or> rest = drop (Suc (expiry 500 0 ?ps)) ?ps"
      "found \<longrightarrow> (\<exists>pre. rxbuf \<lparr>rxbuf = [], wire = []\<rparr> @ arrivals ?ps
         = pre @ header @ rxbuf u' @ arrivals rest)"
    by blast
  from r(3) nohdr have "\<not> found" by blast
  with r(1,2) h show ?thesis by simp
qed

lemma requestSensorData_returns:
  assumes "expiry 500 (startWait env) (polls env) < length (polls env)"
  shows "\<exists>out s'. requestSensorData env s = Some (out, s') \<and> lastFetch s' = lastFetch s"
proof -
  from waitHeader_returns [OF assms] obtain found u' rest
    where "waitHeader 500 (startWait env) (polls env) (serial_write askData (drain (serial s)))
      = Some (found, u', rest)"
    by (metis prod_cases3)
  then show ?thesis
    by (simp add: requestSensorData_def publishFrame_def Let_def split: prod.splits)
qed

lemma loop_standalone_returns:
  assumes "expiry 1000 (startWait env) (polls env) < length (polls env)"
  shows "\<exists>out b'. loop_standalone env fin b = Some (out, b', fin + 5000) \<and>
     last (console b') = Attente"
proof -
  from waitHeader_returns [OF assms] obtain found u' rest
    where "waitHeader 1000 (startWait env) (polls env) (serial_write askData (drain (serial b)))
      = Some (found, u', rest)"
    by (metis prod_cases3)
  then show ?thesis
    by (simp add: loop_standalone_def delay_def Let_def split: prod.splits)
qed

lemma readBytes_wire:
  "readBytes u buf n = (k, buf', u') \<Longrightarrow> \<exists>bs. wire u' = wire u @ map Rd bs"
  by (auto simp: readBytes_def Let_def)

lemma query_wire:
  "wire (serial_write askData (drain u)) =
     wire u @ map Rd (rxbuf u) @ [Wr [0xA5, 0x35, 0x01, 0xDB]]"
  by (simp add: serial_write_def drain_eq askData_def)

lemma requestSensorData_wire:
  assumes "requestSensorData env s = Some (out, s')"
  shows "\<exists>bs. wire (serial s') =
     wire (serial s) @ map Rd (rxbuf (serial s)) @ [Wr [0xA5, 0x35, 0x01, 0xDB]] @ map Rd bs"
proof -
  let ?u1 = "serial_write askData (drain (serial s))"
  from assms obtain found u2 rest
    where wh: "waitHeader 500 (startWait env) (polls env) ?u1 = Some (found, u2, rest)"
    by (auto simp: requestSensorData_def Let_def split: option.splits)
  from waitHeader_wire [OF wh] obtain bs where w2: "wire u2 = wire ?u1 @ map Rd bs"
    by blast
  show ?thesis
  proof (cases found)
    case False
    with assms wh have "serial s' = u2"
      by (auto simp: requestSensorData_def Let_def)
    with w2 have "wire (serial s') =
       wire (serial s) @ map Rd (rxbuf (serial s)) @ [Wr [0xA5, 0x35, 0x01, 0xDB]] @ map Rd bs"
      by (simp add: query_wire)
    then show ?thesis by blast
  next
    case True
    obtain k buf u3 where rb: "readBytes (receive (burst env) u2) (rawData s) 1540 = (k, buf, u3)"
      by (metis prod_cases3)
    from readBytes_wire [OF rb] obtain cs where w3: "wire u3 = wire u2 @ map Rd cs"
      by auto
    from True assms wh rb have "serial s' = u3"
      by (auto simp: requestSensorData_def publishFrame_def Let_def split: if_splits)
    with w2 w3 have "wire (serial s') =
       wire (serial s) @ map Rd (rxbuf (serial s)) @ [Wr [0xA5, 0x35, 0x01, 0xDB]] @ map Rd (bs @ cs)"
      by (simp add: query_wire)
    then show ?thesis by blast
  qed
qed

lemma loop_standalone_wire:
  assumes "loop_standalone env fin b = Some (out, b', resume)"
  shows "\<exists>bs. wire (serial b') =
     wire (serial b) @ map Rd (rxbuf (serial b)) @ [Wr [0xA5, 0x35, 0x01, 0xDB]] @ map Rd bs"
proof -
  let ?u1 = "serial_write askData (drain (serial b))"
  from assms obtain found u2 rest
    where wh: "waitHeader 1000 (startWait env) (polls env) ?u1 = Some (found, u2, rest)"
    by (auto simp: loop_standalone_def Let_def split: option.splits)
  from waitHeader_wire [OF wh] obtain bs where w2: "wire u2 = wire ?u1 @ map Rd bs"
    by blast
  show ?thesis
  proof (cases found)
    case False
    with assms wh have "serial b' = u2"
      by (auto simp: loop_standalone_def Let_def)
    with w2 have "wire (serial b') =
       wire (serial b) @ map Rd (rxbuf (serial b)) @ [Wr [0xA5, 0x35, 0x01, 0xDB]] @ map Rd bs"
      by (simp add: query_wire)
    then show ?thesis by blast
  next
    case True
    obtain k buf u3 where rb: "readBytes (receive (burst env) u2) (rawData b) 1540 = (k, buf, u3)"
      by (metis prod_cases3)
    from readBytes_wire [OF rb] obtain cs where w3: "wire u3 = wire u2 @ map Rd cs"
      by auto
    from True assms wh rb have "serial b' = u3"
      by (auto simp: loop_standalone_def decodeAndShow_def Let_def split: if_splits prod.splits)
    with w2 w3 have "wire (serial b') =
       wire (serial b) @ map Rd (rxbuf (serial b)) @ [Wr [0xA5, 0x35, 0x01, 0xDB]] @ map Rd (bs @ cs)"
      by (simp add: query_wire)
    then show ?thesis by blast
  qed
qed



text \<open>
  Claim C8, as amended. In the WiFi-serving sketches a pass of \<^verbatim>\<open>loop\<close> runs a poll
  cycle exactly when the time elapsed since \<^verbatim>\<open>lastFetch\<close> (modulo \<open>2^32\<close> ms) is
  strictly greater than 1000 ms; the cycle that is run is \<^verbatim>\<open>requestSensorData\<close>,
  with its query on the sensor port, and it leaves \<^verbatim>\<open>lastFetch\<close> at the clock
  reading taken just before it, whatever its outcome; otherwise the state is
  untouched. The standalone sketch keeps no timestamp: every pass of its
  \<^verbatim>\<open>loop\<close> runs one cycle, with its query on the sensor port, and then pauses, so
  that the next pass begins 5000 ms after the cycle has ended.
\<close>

theorem poll_trigger:
  assumes "expiry 500 (startWait env) (polls env) < length (polls env)"
    and "expiry 1000 (startWait env') (polls env') < length (polls env')"
  shows "(if 1000 < unat (now1 - lastFetch s)
      then \<exists>out s' bs. requestSensorData env (s\<lparr>lastFetch := now2\<rparr>) = Some (out, s') \<and>
             loop now1 now2 env s = Some (Some out, s') \<and> lastFetch s' = now2 \<and>
             wire (serial s') =
               wire (serial s) @ map Rd (rxbuf (serial s)) @ [Wr [0xA5, 0x35, 0x01, 0xDB]] @
               map Rd bs
      else loop now1 now2 env s = Some (None, s)) \<and>
     (\<exists>out b' bs. loop_standalone env' fin b = Some (out, b', fin + 5000) \<and>
        last (console b') = Attente \<and>
        wire (serial b') =
          wire (serial b) @ map Rd (rxbuf (serial b)) @ [Wr [0xA5, 0x35, 0x01, 0xDB]] @ map Rd bs)"
proof -
  have gt: "(1000 < now1 - lastFetch s) = (1000 < unat (now1 - lastFetch s))"
    by (simp add: word_less_nat_alt)
  from requestSensorData_returns [OF assms(1), of "s\<lparr>lastFetch := now2\<rparr>"]
  obtain out s' where c: "requestSensorData env (s\<lparr>lastFetch := now2\<rparr>) = Some (out, s')"
    and lf: "lastFetch s' = now2" by auto
  from requestSensorData_wire [OF c] obtain bs where w: "wire (serial s') =
      wire (serial s) @ map Rd (rxbuf (serial s)) @ [Wr [0xA5, 0x35, 0x01, 0xDB]] @ map Rd bs"
    by auto
  have wifi: "if 1000 < unat (now1 - lastFetch s)
      then \<exists>out s' bs. requestSensorData env (s\<lparr>lastFetch := now2\<rparr>) = Some (out, s') \<and>
             loop now1 now2 env s = Some (Some out, s') \<and> lastFetch s' = now2 \<and>
             wire (serial s') =
               wire (serial s) @ map Rd (rxbuf (serial s)) @ [Wr [0xA5, 0x35, 0x01, 0xDB]] @
               map Rd bs
      else loop now1 now2 env s = Some (None, s)"
  proof (cases "1000 < unat (now1 - lastFetch s)")
    case True
    with c have "loop now1 now2 env s = Some (Some out, s')"
      by (simp add: loop_def gt)
    with True c lf w show ?thesis by auto
  next
    case False
    then show ?thesis by (simp add: loop_def gt)
  qed
  from loop_standalone_returns [OF assms(2), of fin b]
  obtain out' b' where d: "loop_standalone env' fin b = Some (out', b', fin + 5000)"
    and att: "last (console b') = Attente" by blast
  from loop_standalone_wire [OF d] d att
  have "\<exists>out b' bs. loop_standalone env' fin b = Some (out, b', fin + 5000) \<and>
        last (console b') = Attente \<and>
        wire (serial b') =
          wire (serial b) @ map Rd (rxbuf (serial b)) @ [Wr [0xA5, 0x35, 0x01, 0xDB]] @ map Rd bs"
    by blast
  with wifi show ?thesis by blast
qed

theorem poll_trigger_witness:
  "expiry 500 (startWait \<lparr>startWait = 2002, polls = [(2502, [])], burst = []\<rparr>)
      (polls \<lparr>startWait = 2002, polls = [(2502, [])], burst = []\<rparr>)
     < length (polls \<lparr>startWait = 2002, polls = [(2502, [])], burst = []\<rparr>) \<and>
   expiry 1000 (startWait \<lparr>startWait = 2002, polls = [(3002, [])], burst = []\<rparr>)
      (polls \<lparr>startWait = 2002, polls = [(3002, [])], burst = []\<rparr>)
     < length (polls \<lparr>startWait = 2002, polls = [(3002, [])], burst = []\<rparr>) \<and>
   (\<exists>out s'. loop 2001 2002 \<lparr>startWait = 2002, polls = [(2502, [])], burst = []\<rparr>
       (after_setup\<lparr>lastFetch := 1000\<rparr>) = Some (Some out, s') \<and> lastFetch s' = 2002) \<and>
   loop 2000 2000 \<lparr>startWait = 2002, polls = [(2502, [])], burst = []\<rparr>
       (after_setup\<lparr>lastFetch := 1000\<rparr>) = Some (None, after_setup\<lparr>lastFetch := 1000\<rparr>) \<and>
   (\<exists>out b'. loop_standalone \<lparr>startWait = 2002, polls = [(3002, [])], burst = []\<rparr> 3002
       (board.truncate after_setup) = Some (out, b', 8002) \<and> last (console b') = Attente)"
  using poll_trigger [of "\<lparr>startWait = 2002, polls = [(2502, [])], burst = []\<rparr>"
      "\<lparr>startWait = 2002, polls = [(3002, [])], burst = []\<rparr>" 2001
      "after_setup\<lparr>lastFetch := 1000\<rparr>" 2002 3002 "board.truncate after_setup"]
    poll_trigger [of "\<lparr>startWait = 2002, polls = [(2502, [])], burst = []\<rparr>"
      "\<lparr>startWait = 2002, polls = [(3002, [])], burst = []\<rparr>" 2000
      "after_setup\<lparr>lastFetch := 1000\<rparr>" 2000 3002 "board.truncate after_setup"]
  by auto

text \<open>
  Claim C8 as stated fails in both halves. In the WiFi-serving sketches no cycle is run
  when exactly 1000 ms have elapsed. In the standalone sketch a pass whose cycle began
  at clock 0 and timed out at clock 1000 ends at clock 6000: when 5000 ms have elapsed
  since the poll, the next cycle has not begun.
\<close>

theorem poll_interval_counterexample:
  "1000 \<le> unat (1000 - lastFetch after_setup) \<and>
   loop 1000 1000 \<lparr>startWait = 1000, polls = [(1500, [])], burst = []\<rparr> after_setup
     = Some (None, after_setup) \<and>
   map_option (snd \<circ> snd)
     (loop_standalone \<lparr>startWait = 0, polls = [(1000, [])], burst = []\<rparr> 1000
        (board.truncate after_setup)) = Some 6000"
  by (simp add: loop_def after_setup_def loop_standalone_def delay_def Let_def)

text \<open>
  Claim C5. When the header was matched and fewer than 1540 bytes are received before
  \<^verbatim>\<open>readBytes\<close> stalls, the cycle ends in the short-read branch with the number of
  bytes received, the grid is untouched and nothing is broadcast; the console shows
  the incomplete-frame line with that number.
\<close>

theorem short_read:
  assumes "waitHeader 500 (startWait env) (polls env) (serial_write askData (drain (serial s)))
      = Some (True, u, rest)"
    and "length (rxbuf u) + length (burst env) < 1540"
  shows "\<exists>s'. requestSensorData env s = Some (ShortRead (length (rxbuf u) + length (burst env)), s') \<and>
     frame s' = frame s \<and> webSocket s' = webSocket s \<and>
     console s' = console s @ [TrameIncomplete (length (rxbuf u) + length (burst env))]"
  using assms by (simp add: requestSensorData_def readBytes_def Let_def)

theorem short_read_witness:
  "length (rxbuf \<lparr>rxbuf = [], wire = [Wr [0xA5, 0x35, 0x01, 0xDB], Wr [0xA5, 0x35, 0x01, 0xDB],
       Rd 0x5A, Rd 0x5A, Rd 0x02, Rd 0x06]\<rparr>)
     + length (burst \<lparr>startWait = 0, polls = [(0, [0x5A, 0x5A, 0x02, 0x06])], burst = replicate 1000 0\<rparr>)
     < 1540 \<and>
   (\<exists>s'. requestSensorData
       \<lparr>startWait = 0, polls = [(0, [0x5A, 0x5A, 0x02, 0x06])], burst = replicate 1000 0\<rparr> after_setup
      = Some (ShortRead 1000, s') \<and>
     frame s' = frame after_setup \<and> webSocket s' = webSocket after_setup \<and>
     console s' = console after_setup @ [TrameIncomplete 1000])"
proof -
  let ?env = "\<lparr>startWait = 0, polls = [(0, [0x5A, 0x5A, 0x02, 0x06])], burst = replicate 1000 0\<rparr>"
  let ?u = "\<lparr>rxbuf = [], wire = [Wr [0xA5, 0x35, 0x01, 0xDB], Wr [0xA5, 0x35, 0x01, 0xDB],
       Rd 0x5A, Rd 0x5A, Rd 0x02, Rd 0x06]\<rparr>"
  have h1: "waitHeader 500 (startWait ?env) (polls ?env)
      (serial_write askData (drain (serial after_setup))) = Some (True, ?u, [])"
    by (simp add: after_setup_def drain_eq serial_write_def askData_def receive_def available_def
        tryHeader_def serial_read_def Let_def)
  have h2: "length (rxbuf ?u) + length (burst ?env) < 1540"
    by simp
  from short_read [OF h1 h2] h2 show ?thesis by simp
qed

lemma length_ieee754_le [simp]: "length (ieee754_le x) = 4"
  by (simp add: ieee754_le_def le_bytes_def)

lemma length_float_image [simp]: "length (float_image cells) = 4 * length cells"
  by (induction cells) (simp_all add: float_image_def)

lemma float_image_Cons: "float_image (x # cells) = ieee754_le x @ float_image cells"
  by (simp add: float_image_def)

lemma float_image_cell:
  "k < length cells \<Longrightarrow> take 4 (drop (4 * k) (float_image cells)) = ieee754_le (cells ! k)"
proof (induction cells arbitrary: k)
  case Nil
  then show ?case by simp
next
  case (Cons x cells)
  show ?case
  proof (cases k)
    case 0
    then show ?thesis by (simp add: float_image_Cons)
  next
    case (Suc j)
    with Cons.prems have "j < length cells" by simp
    from Cons.IH [OF this] Suc show ?thesis by (simp add: float_image_Cons)
  qed
qed

lemma requestSensorData_no_publish:
  assumes "requestSensorData env s = Some (out, s')" and "out \<noteq> Success"
  shows "webSocket s' = webSocket s \<and> delivered s' = delivered s \<and> frame s' = frame s"
  using assms
  by (auto simp: requestSensorData_def Let_def split: option.splits prod.splits if_splits)

text \<open>
  Claim C7. When the header was matched and 1540 payload bytes are received, the cycle
  decodes them into the grid and hands the WebSocket server one payload: the 768
  cells in index order (row \<open>y\<close>, column \<open>x\<close> at index \<open>32y + x\<close>), four bytes each,
  3072 bytes in all, each cell in the little-endian binary32 encoding. That one
  message goes to every subscriber connected at the time; with none connected
  nothing is delivered, and the grid has been decoded all the same. A cycle that
  ends in any other way publishes nothing and leaves the grid as it was.
\<close>

theorem publish_on_success:
  assumes "waitHeader 500 (startWait env) (polls env) (serial_write askData (drain (serial s)))
      = Some (True, u, rest)"
    and "1540 \<le> length (rxbuf u) + length (burst env)"
    and "length (rawData s) = 1540" and "length (frame s) = 768"
  shows "(\<exists>s'. requestSensorData env s = Some (Success, s') \<and>
       rawData s' = take 1540 (rxbuf u @ burst env) \<and>
       frame s' = decodeFrame (rawData s') (frame s) \<and>
       webSocket s' = webSocket s @ [float_image (frame s')] \<and>
       length (float_image (frame s')) = 3072 \<and>
       (\<forall>k<768. take 4 (drop (4 * k) (float_image (frame s'))) = ieee754_le (frame s' ! k)) \<and>
       delivered s' = delivered s @ map (\<lambda>c. (c, float_image (frame s'))) (clients s)) \<and>
     (\<forall>env0 s0 out s1. requestSensorData env0 s0 = Some (out, s1) \<and> out \<noteq> Success \<longrightarrow>
       webSocket s1 = webSocket s0 \<and> delivered s1 = delivered s0 \<and> frame s1 = frame s0)"
proof -
  define raw where "raw = take 1540 (rxbuf u @ burst env)"
  define s1 where "s1 = s\<lparr>rawData := raw,
      serial := (receive (burst env) u)\<lparr>rxbuf := drop 1540 (rxbuf u @ burst env),
        wire := wire u @ map Rd raw\<rparr>\<rparr>"
  have rb: "readBytes (receive (burst env) u) (rawData s) 1540 =
      (1540, raw, (receive (burst env) u)\<lparr>rxbuf := drop 1540 (rxbuf u @ burst env),
        wire := wire u @ map Rd raw\<rparr>)"
    using assms(2,3) by (simp add: readBytes_def raw_def Let_def min_def)
  have res: "requestSensorData env s = Some (Success, publishFrame s1)"
    using assms(1) by (simp add: requestSensorData_def rb s1_def Let_def)
  have fr: "frame (publishFrame s1) = decodeFrame raw (frame s)"
    by (simp add: publishFrame_def s1_def Let_def)
  have len: "length (frame (publishFrame s1)) = 768"
    using assms(4) by (simp add: fr)
  have "rawData (publishFrame s1) = take 1540 (rxbuf u @ burst env)"
    by (simp add: publishFrame_def s1_def raw_def Let_def)
  moreover have "frame (publishFrame s1) = decodeFrame (rawData (publishFrame s1)) (frame s)"
    by (simp add: publishFrame_def s1_def Let_def)
  moreover have "webSocket (publishFrame s1) = webSocket s @ [float_image (frame (publishFrame s1))]"
    by (simp add: publishFrame_def s1_def Let_def)
  moreover have "length (float_image (frame (publishFrame s1))) = 3072"
    using len by simp
  moreover have "\<forall>k<768. take 4 (drop (4 * k) (float_image (frame (publishFrame s1))))
      = ieee754_le (frame (publishFrame s1) ! k)"
    using len by (simp add: float_image_cell)
  moreover have "delivered (publishFrame s1) =
      delivered s @ map (\<lambda>c. (c, float_image (frame (publishFrame s1)))) (clients s)"
    by (simp add: publishFrame_def s1_def broadcastBIN_def Let_def)
  ultimately have "\<exists>s'. requestSensorData env s = Some (Success, s') \<and>
       rawData s' = take 1540 (rxbuf u @ burst env) \<and>
       frame s' = decodeFrame (rawData s') (frame s) \<and>
       webSocket s' = webSocket s @ [float_image (frame s')] \<and>
       length (float_image (frame s')) = 3072 \<and>
       (\<forall>k<768. take 4 (drop (4 * k) (float_image (frame s'))) = ieee754_le (frame s' ! k)) \<and>
       delivered s' = delivered s @ map (\<lambda>c. (c, float_image (frame s'))) (clients s)"
    using res by blast
  then show ?thesis
    using requestSensorData_no_publish by blast
qed

theorem publish_on_success_witness:
  "\<exists>s'. requestSensorData
       \<lparr>startWait = 0, polls = [(0, [0x5A, 0x5A, 0x02, 0x06])],
        burst = (replicate 1540 0)[0 := 0xF7, 1 := 0x09]\<rparr>
       (after_setup\<lparr>clients := [7, 9]\<rparr>) = Some (Success, s') \<and>
     length (webSocket s') = 1 \<and> length (last (webSocket s')) = 3072 \<and>
     take 4 (last (webSocket s')) = [0x7B, 0x14, 0xCC, 0x41] \<and>
     map fst (delivered s') = [7, 9] \<and> map snd (delivered s') = webSocket s' @ webSocket s'"
proof -
  let ?env = "\<lparr>startWait = 0, polls = [(0, [0x5A, 0x5A, 0x02, 0x06])],
        burst = (replicate 1540 0)[0 := 0xF7, 1 := 0x09 :: byte]\<rparr>"
  let ?s = "after_setup\<lparr>clients := [7, 9]\<rparr>"
  let ?u = "\<lparr>rxbuf = [], wire = [Wr [0xA5, 0x35, 0x01, 0xDB], Wr [0xA5, 0x35, 0x01, 0xDB],
       Rd 0x5A, Rd 0x5A, Rd 0x02, Rd 0x06]\<rparr>"
  have h1: "waitHeader 500 (startWait ?env) (polls ?env)
      (serial_write askData (drain (serial ?s))) = Some (True, ?u, [])"
    by (simp add: after_setup_def drain_eq serial_write_def askData_def receive_def available_def
        tryHeader_def serial_read_def Let_def)
  have h2: "1540 \<le> length (rxbuf ?u) + length (burst ?env)" by simp
  have h3: "length (rawData ?s) = 1540" by (simp add: after_setup_def)
  have h4: "length (frame ?s) = 768" by (simp add: after_setup_def)
  from publish_on_success [OF h1 h2 h3 h4] obtain s'
    where r: "requestSensorData ?env ?s = Some (Success, s')"
      and raw: "rawData s' = take 1540 (rxbuf ?u @ burst ?env)"
      and fr: "frame s' = decodeFrame (rawData s') (frame ?s)"
      and ws: "webSocket s' = webSocket ?s @ [float_image (frame s')]"
      and len: "length (float_image (frame s')) = 3072"
      and cell: "\<forall>k<768. take 4 (drop (4 * k) (float_image (frame s'))) = ieee754_le (frame s' ! k)"
      and dl: "delivered s' = delivered ?s @ map (\<lambda>c. (c, float_image (frame s'))) (clients ?s)"
    by blast
  have "frame s' ! 0 = 13374587 / 524288"
    by (simp add: fr raw decodeFrame_nth filtered_le frame_after_setup le_int16_def float_eval)
  moreover have "take 4 (float_image (frame s')) = ieee754_le (frame s' ! 0)"
    using cell [rule_format, of 0] by simp
  ultimately have "take 4 (float_image (frame s')) = [0x7B, 0x14, 0xCC, 0x41]"
    by (simp add: ieee754_le_def le_bytes_def f32_bits_def f32_exponent_def upto.simps
        power_int_minus)
  with r ws len dl show ?thesis
    by (simp add: after_setup_def)
qed

lemma expiry_replicate:
  "now - st < D \<Longrightarrow> expiry D st (replicate n (now, arrived) @ ps) = n + expiry D st ps"
  by (induction n) simp_all

text \<open>
  Claim C1 at a concrete stream: the failed candidate 5A 5A 02 5A overlaps the valid
  header 5A 5A 02 06 that begins at its fourth byte and is followed by 1540 payload
  bytes, all delivered at once. The fourth \<^verbatim>\<open>read()\<close> has consumed the first byte
  of the header, the search goes on behind it, and the cycle ends without a frame.
\<close>

theorem overlapped_header_missed:
  "map_option fst (requestSensorData
      \<lparr>startWait = 0,
       polls = (0, [0x5A, 0x5A, 0x02, 0x5A, 0x5A, 0x02, 0x06] @ replicate 1540 0) # (1, []) #
               replicate 1600 (1, []) @ [(500, [])],
       burst = []\<rparr> after_setup) = Some HeaderTimeout"
proof -
  let ?u1 = "serial_write askData (drain (serial after_setup))"
  let ?stream = "[0x5A, 0x5A, 0x02, 0x5A, 0x5A, 0x02, 0x06] @ replicate 1540 (0::byte)"
  let ?rest = "replicate 1600 (1::ulong, [] :: byte list) @ [(500, [])]"
  define v where "v = snd (tryHeader (receive [] (snd (tryHeader (receive ?stream ?u1)))))"
  have rx: "rxbuf v = 0x06 # replicate 1540 0"
    unfolding v_def
    by (simp add: tryHeader_def serial_read_def receive_def Let_def drain_eq serial_write_def)
  have step: "waitHeader 500 0 ((0, ?stream) # (1, []) # ?rest) ?u1 = waitHeader 500 0 ?rest v"
    unfolding v_def
    by (simp add: tryHeader_def serial_read_def receive_def available_def Let_def drain_eq
        serial_write_def)
  have ex: "expiry 500 0 ?rest = 1600"
    by (simp add: expiry_replicate)
  then have "expiry 500 0 ?rest < length ?rest" by simp
  from waitHeader_returns [OF this] obtain found u' r
    where res: "waitHeader 500 0 ?rest v = Some (found, u', r)"
    by (metis prod_cases3)
  have "\<not> found"
  proof
    assume found
    with res have "waitHeader 500 0 ?rest v = Some (True, u', r)" by simp
    from waitHeader_found_header [OF this] obtain pre
      where eq: "rxbuf v @ arrivals ?rest = pre @ header @ rxbuf u' @ arrivals r" by blast
    have "0x5A \<in> set (rxbuf v @ arrivals ?rest)"
      unfolding eq by (simp add: header_def)
    then show False by (simp add: rx arrivals_def)
  qed
  with res step show ?thesis
    by (simp add: requestSensorData_def Let_def)
qed

end
